theory Spec2Isabelle
  imports Main "HOL-Library.Word" "HOL-Library.Signed_Division" "HOL-Library.Monad_Syntax"
begin

unbundle bit_operations_syntax

section \<open>The integer types of the AVR target\<close>

text \<open>
  The sketch is compiled for an ATtiny45/85 (or ATmega168/328): \<^verbatim>\<open>int\<close> has 16 bits,
  \<^verbatim>\<open>long\<close> has 32 bits, \<^verbatim>\<open>byte\<close> is an unsigned 8-bit value and \<^verbatim>\<open>unsigned long\<close>
  an unsigned 32-bit value.  Signed variables are modelled as \<open>int\<close> and every arithmetic
  result that is stored in one is wrapped into the range of its type by \<open>s16\<close> or \<open>s32\<close>
  (what avr-gcc produces on overflow); the quotient \<^verbatim>\<open>/\<close> and the remainder \<^verbatim>\<open>%\<close> of C
  truncate towards zero and are \<open>sdiv\<close> and \<open>smod\<close>.  Unsigned values are words.
\<close>

definition s16 :: "int \<Rightarrow> int" where
  "s16 x = (x + 32768) mod 65536 - 32768"

definition s32 :: "int \<Rightarrow> int" where
  "s32 x = (x + 2147483648) mod 4294967296 - 2147483648"

definition c_int :: "int \<Rightarrow> bool" where
  "c_int x \<longleftrightarrow> - 32768 \<le> x \<and> x \<le> 32767"

definition c_long :: "int \<Rightarrow> bool" where
  "c_long x \<longleftrightarrow> - 2147483648 \<le> x \<and> x \<le> 2147483647"

section \<open>Constants of the sketch\<close>

definition TEST_MIN_COUNTER_TRIGGER :: int where "TEST_MIN_COUNTER_TRIGGER = 2"
definition TEST_MAX_COUNTER_TRIGGER :: int where "TEST_MAX_COUNTER_TRIGGER = 4"
definition TEST_WATCHDOG_PARAM :: int where "TEST_WATCHDOG_PARAM = 7"
definition DAY :: int where "DAY = 10800"
definition TEST_INITIAL_COUNTER_TRIGGER :: int where "TEST_INITIAL_COUNTER_TRIGGER = 3"
definition ON_MICROS :: int where "ON_MICROS = 300"
definition DUTY :: int where "DUTY = 30"
definition piezoPin :: int where "piezoPin = 3"
definition activationPin :: int where "activationPin = 2"

text \<open>Bit numbers of the watchdog registers, from the ATtiny25/45/85 register file.\<close>

definition WDRF :: nat where "WDRF = 3"
definition WDCE :: nat where "WDCE = 4"
definition WDE :: nat where "WDE = 3"
definition WDIE :: nat where "WDIE = 6"

text \<open>
  The watchdog periods in milliseconds, as the comment above \<^verbatim>\<open>setup_watchdog\<close> lists them:
  0=16ms, 1=32ms, 2=64ms, 3=128ms, 4=250ms, 5=500ms, 6=1 sec, 7=2 sec, 8=4 sec, 9=8 sec.
\<close>

definition watchdog_periods :: "nat list" where
  "watchdog_periods = [16, 32, 64, 128, 250, 500, 1000, 2000, 4000, 8000]"

definition watchdog_period_ms :: "int \<Rightarrow> nat" where
  "watchdog_period_ms ii = watchdog_periods ! nat (if ii > 9 then 9 else ii)"

section \<open>The device state\<close>

text \<open>
  One record holds the global variables of the sketch, the two watchdog registers it
  writes, the pin configuration, the environment the sketch reads (the time, the level on
  the activation pin at every millisecond, the random number generator of the C library
  and the memory cell that follows the array \<^verbatim>\<open>periods\<close> on the stack) and what the sketch
  emits (the cycles of the square wave on the piezo pin).  \<open>out_of_bounds\<close> is a monitor: it
  collects the index of every array access that leaves the array.
\<close>

record device =
  MIN_COUNTER_TRIGGER :: int
  MAX_COUNTER_TRIGGER :: int
  WATCHDOG_PARAM :: int
  INITIAL_COUNTER_TRIGGER :: int
  device_count :: int
  day_counter :: int
  started :: bool
  counter_trigger :: int
  watchdog_counter :: int
  WDTCR :: "8 word"
  MCUSR :: "8 word"
  pin_is_output :: "int \<Rightarrow> bool"
  pin_latch :: "int \<Rightarrow> bool"
  clock :: nat
  activation_level :: "nat \<Rightarrow> bool"
  generator :: "32 word \<Rightarrow> nat \<Rightarrow> nat"
  seed :: "32 word"
  rng_pos :: nat
  stack_beyond :: int
  wave :: "(32 word \<times> 32 word) list"
  out_of_bounds :: "int list"

text \<open>The state at power-on: the initialisers of the globals, time zero, nothing emitted.\<close>

definition power_on :: "(nat \<Rightarrow> bool) \<Rightarrow> (32 word \<Rightarrow> nat \<Rightarrow> nat) \<Rightarrow> int \<Rightarrow> device" where
  "power_on level gen beyond =
     \<lparr> MIN_COUNTER_TRIGGER = 37, MAX_COUNTER_TRIGGER = 60, WATCHDOG_PARAM = 9,
       INITIAL_COUNTER_TRIGGER = 1 * DAY, device_count = 1, day_counter = 0,
       started = False, counter_trigger = 0, watchdog_counter = 0,
       WDTCR = 0, MCUSR = 0, pin_is_output = (\<lambda>_. False), pin_latch = (\<lambda>_. False),
       clock = 0, activation_level = level, generator = gen, seed = 1, rng_pos = 0,
       stack_beyond = beyond, wave = [], out_of_bounds = [] \<rparr>"

section \<open>Time, pins and random numbers\<close>

text \<open>
  Time is counted in milliseconds since power-on; \<^verbatim>\<open>millis()\<close> returns it as an
  \<^verbatim>\<open>unsigned long\<close>.  The busy-waiting loops of the sketch are observed once per
  millisecond: one turn of a modelled loop stands for the turns the program makes during
  one millisecond.
\<close>

definition millis :: "device \<Rightarrow> 32 word" where
  "millis s = of_nat (clock s)"

definition delay :: "32 word \<Rightarrow> device \<Rightarrow> device" where
  "delay ms s = s\<lparr>clock := clock s + unat ms\<rparr>"

definition digitalRead_activation :: "device \<Rightarrow> bool" where
  "digitalRead_activation s = activation_level s (clock s)"

definition pinMode :: "int \<Rightarrow> bool \<Rightarrow> device \<Rightarrow> device" where
  "pinMode p out s = s\<lparr>pin_is_output := (pin_is_output s)(p := out)\<rparr>"

definition digitalWrite :: "int \<Rightarrow> bool \<Rightarrow> device \<Rightarrow> device" where
  "digitalWrite p v s = s\<lparr>pin_latch := (pin_latch s)(p := v)\<rparr>"

text \<open>
  The random numbers of the Arduino core: \<^verbatim>\<open>random()\<close> of the C library yields a value
  between 0 and \<^verbatim>\<open>RANDOM_MAX = 0x7FFFFFFF\<close> that depends on the seed and on the number of
  values drawn so far; \<^verbatim>\<open>random(howbig)\<close> is 0 for \<^verbatim>\<open>howbig == 0\<close> and
  \<^verbatim>\<open>random() % howbig\<close> otherwise; \<^verbatim>\<open>random(howsmall, howbig)\<close> is \<^verbatim>\<open>howsmall\<close> when
  \<^verbatim>\<open>howsmall >= howbig\<close> and \<^verbatim>\<open>random(howbig - howsmall) + howsmall\<close> otherwise;
  \<^verbatim>\<open>randomSeed\<close> ignores a seed of 0.
\<close>

definition random_raw :: "device \<Rightarrow> int \<times> device" where
  "random_raw s =
     (int (generator s (seed s) (rng_pos s) mod 2147483648), s\<lparr>rng_pos := rng_pos s + 1\<rparr>)"

definition random1 :: "int \<Rightarrow> device \<Rightarrow> int \<times> device" where
  "random1 howbig s =
     (if howbig = 0 then (0, s)
      else (let (r, s') = random_raw s in (r smod howbig, s')))"

definition random2 :: "int \<Rightarrow> int \<Rightarrow> device \<Rightarrow> int \<times> device" where
  "random2 howsmall howbig s =
     (if howsmall \<ge> howbig then (howsmall, s)
      else (let diff = s32 (howbig - howsmall);
                (r, s') = random1 diff s
            in (s32 (r + howsmall), s')))"

definition randomSeed :: "32 word \<Rightarrow> device \<Rightarrow> device" where
  "randomSeed x s = (if x \<noteq> 0 then s\<lparr>seed := x, rng_pos := 0\<rparr> else s)"

section \<open>The tone generator\<close>

text \<open>
  \<^verbatim>\<open>play\<close> holds the piezo pin high for \<open>pa\<close> microseconds and low for \<open>pb\<close>
  microseconds until \<^verbatim>\<open>millis()\<close> reaches \<open>end_ms\<close>.  Every modelled turn of the loop
  appends the cycle \<open>(pa, pb)\<close> to the wave and lets one millisecond pass.
\<close>

definition play_pa :: "int \<Rightarrow> int \<Rightarrow> 32 word" where
  "play_pa period duty =
     (let pa = (word_of_int (s32 (period * duty) sdiv 100) :: 32 word)
      in if pa > 150 then 150 else pa)"

definition play_pb :: "int \<Rightarrow> int \<Rightarrow> 32 word" where
  "play_pb period duty = word_of_int period - play_pa period duty"

function play_loop :: "32 word \<Rightarrow> 32 word \<Rightarrow> 32 word \<Rightarrow> device \<Rightarrow> device" where
  "play_loop end_ms pa pb s =
     (if end_ms > millis s
      then play_loop end_ms pa pb (s\<lparr>wave := wave s @ [(pa, pb)], clock := clock s + 1\<rparr>)
      else s)"
  by pat_completeness auto

termination play_loop
proof (relation "measure (\<lambda>(e, pa, pb, s). unat e - unat (millis s))", goal_cases)
  case 1
  show ?case by simp
next
  case (2 end_ms pa pb s)
  have "unat end_ms < 2 ^ 32"
    using unsigned_less [of end_ms] by simp
  with 2 show ?case
    by (simp add: millis_def word_less_nat_alt unat_of_nat mod_Suc del: of_nat_Suc)
qed

declare play_loop.simps [simp del]

definition play4 :: "int \<Rightarrow> int \<Rightarrow> int \<Rightarrow> int \<Rightarrow> device \<Rightarrow> device" where
  "play4 period durationMillis pauseMillis duty s =
     (let end_ms = millis s + word_of_int durationMillis;
          pa = play_pa period duty;
          pb = play_pb period duty;
          s1 = play_loop end_ms pa pb s
      in delay (word_of_int pauseMillis) s1)"

definition play2 :: "int \<Rightarrow> int \<Rightarrow> device \<Rightarrow> device" where
  "play2 period durationMillis = play4 period durationMillis 0 DUTY"

definition play3 :: "int \<Rightarrow> int \<Rightarrow> int \<Rightarrow> device \<Rightarrow> device" where
  "play3 period durationMillis pauseMillis = play4 period durationMillis pauseMillis DUTY"

section \<open>The tap reader\<close>

text \<open>
  \<^verbatim>\<open>readActivationPinBoolean\<close> samples the activation pin until the timeout; on a high
  level it plays the confirmation tone and returns true.
\<close>

function readActivationPinBoolean_loop ::
  "int \<Rightarrow> int \<Rightarrow> 32 word \<Rightarrow> device \<Rightarrow> bool \<times> device" where
  "readActivationPinBoolean_loop period duration end_ms s =
     (if millis s < end_ms
      then (if digitalRead_activation s then (True, play2 period duration s)
            else readActivationPinBoolean_loop period duration end_ms (s\<lparr>clock := clock s + 1\<rparr>))
      else (False, s))"
  by pat_completeness auto

termination readActivationPinBoolean_loop
proof (relation "measure (\<lambda>(p, d, e, s). unat e - unat (millis s))", goal_cases)
  case 1
  show ?case by simp
next
  case (2 period duration end_ms s)
  have "unat end_ms < 2 ^ 32"
    using unsigned_less [of end_ms] by simp
  with 2 show ?case
    by (simp add: millis_def word_less_nat_alt unat_of_nat mod_Suc del: of_nat_Suc)
qed

declare readActivationPinBoolean_loop.simps [simp del]

definition readActivationPinBoolean3 :: "int \<Rightarrow> int \<Rightarrow> int \<Rightarrow> device \<Rightarrow> bool \<times> device" where
  "readActivationPinBoolean3 period duration timeout s =
     readActivationPinBoolean_loop period duration (millis s + word_of_int timeout) s"

definition readActivationPinBoolean2 :: "int \<Rightarrow> int \<Rightarrow> device \<Rightarrow> bool \<times> device" where
  "readActivationPinBoolean2 period timeout = readActivationPinBoolean3 period ON_MICROS timeout"

definition readActivationPinBoolean1 :: "int \<Rightarrow> device \<Rightarrow> bool \<times> device" where
  "readActivationPinBoolean1 period = readActivationPinBoolean2 period 5000"

text \<open>
  The release loop \<^verbatim>\<open>while (digitalRead(activationPin) == HIGH) { delay(10); }\<close> has no
  timeout and the counting loop runs as long as taps arrive: both may run forever, which
  is the value \<open>None\<close>.
\<close>

partial_function (option) wait_release :: "device \<Rightarrow> device option" where
  "wait_release s =
     (if digitalRead_activation s then wait_release (delay 10 s) else Some s)"

partial_function (option) readActivationPinByte_loop ::
  "int \<Rightarrow> int \<Rightarrow> int \<Rightarrow> device \<Rightarrow> (int \<times> device) option" where
  "readActivationPinByte_loop period timeout count s =
     (let r = readActivationPinBoolean3 period 100 timeout s in
      if fst r
      then do {
        s2 \<leftarrow> wait_release (delay 100 (snd r));
        readActivationPinByte_loop period timeout (s16 (count + 1)) (delay 100 s2)
      }
      else Some (count, snd r))"

definition readActivationPinByte :: "int \<Rightarrow> int \<Rightarrow> device \<Rightarrow> (8 word \<times> device) option" where
  "readActivationPinByte period timeout s =
     map_option (\<lambda>(count, s'). (word_of_int count, s'))
       (readActivationPinByte_loop period timeout 0 s)"

section \<open>Configuration\<close>

function beeps :: "int \<Rightarrow> int \<Rightarrow> device \<Rightarrow> device" where
  "beeps x n s = (if x < n then beeps (x + 1) n (play3 400 200 200 s) else s)"
  by pat_completeness auto

termination beeps
  by (relation "measure (\<lambda>(x, n, s). nat (n - x))") auto

declare beeps.simps [simp del]

function pins_to_input :: "int \<Rightarrow> device \<Rightarrow> device" where
  "pins_to_input x s =
     (if x \<le> 4
      then pins_to_input (x + 1)
             (if x \<noteq> piezoPin then digitalWrite x False (pinMode x False s) else s)
      else s)"
  by pat_completeness auto

termination pins_to_input
  by (relation "measure (\<lambda>(x, s). nat (5 - x))") auto

declare pins_to_input.simps [simp del]

definition readConfiguration :: "device \<Rightarrow> device option" where
  "readConfiguration s0 =
     (let s = play2 450 ON_MICROS s0;
          (active, s) = readActivationPinBoolean2 400 5000 s
      in if active
         then do {
           (days_byte, s) \<leftarrow> readActivationPinByte 400 1000 s;
           let days = uint days_byte;
           let s = beeps 0 days s;
           let s = (if days = 0 then play3 500 200 200 s else s);
           (others, s) \<leftarrow> readActivationPinByte 400 1000 s;
           let s = s\<lparr>device_count := s16 (uint others + 1)\<rparr>;
           let s = beeps 0 (device_count s) s;
           let (testMode, s) = readActivationPinBoolean2 350 1000 s;
           let s = (if \<not> testMode then play2 450 ON_MICROS s
                    else s\<lparr>MIN_COUNTER_TRIGGER := TEST_MIN_COUNTER_TRIGGER,
                           MAX_COUNTER_TRIGGER := TEST_MAX_COUNTER_TRIGGER,
                           INITIAL_COUNTER_TRIGGER := TEST_INITIAL_COUNTER_TRIGGER,
                           WATCHDOG_PARAM := TEST_WATCHDOG_PARAM\<rparr>);
           let s = delay 100 s;
           let s = s\<lparr>MIN_COUNTER_TRIGGER := s16 (MIN_COUNTER_TRIGGER s * device_count s)\<rparr>;
           let s = s\<lparr>MAX_COUNTER_TRIGGER := s16 (MAX_COUNTER_TRIGGER s * device_count s)\<rparr>;
           let s = s\<lparr>INITIAL_COUNTER_TRIGGER := s32 (INITIAL_COUNTER_TRIGGER s + s32 (DAY * days))\<rparr>;
           Some (pins_to_input 0 s)
         }
         else (let s = play2 500 ON_MICROS s;
                   s = play2 550 (ON_MICROS * 3) s;
                   s = delay 3000 s;
                   s = s\<lparr>INITIAL_COUNTER_TRIGGER := 0\<rparr>;
                   s = s\<lparr>MIN_COUNTER_TRIGGER := 0\<rparr>;
                   s = s\<lparr>MAX_COUNTER_TRIGGER := 0\<rparr>;
                   s = s\<lparr>WATCHDOG_PARAM := TEST_WATCHDOG_PARAM\<rparr>
               in Some (pins_to_input 0 s)))"

section \<open>The watchdog\<close>

definition setup_watchdog :: "int \<Rightarrow> device \<Rightarrow> device" where
  "setup_watchdog ii0 s =
     (let ii = (if ii0 > 9 then 9 else ii0);
          bb = (word_of_int ii AND 7 :: 8 word);
          bb = (if ii > 7 then bb OR push_bit 5 1 else bb);
          bb = bb OR push_bit WDCE 1;
          s = s\<lparr>MCUSR := MCUSR s AND NOT (push_bit WDRF 1)\<rparr>;
          s = s\<lparr>WDTCR := WDTCR s OR push_bit WDCE 1 OR push_bit WDE 1\<rparr>;
          s = s\<lparr>WDTCR := bb\<rparr>
      in s\<lparr>WDTCR := WDTCR s OR push_bit WDIE 1\<rparr>)"

text \<open>The interrupt routine of the watchdog timer.\<close>

definition WDT_vect :: "device \<Rightarrow> device" where
  "WDT_vect s = s\<lparr>watchdog_counter := s32 (watchdog_counter s + 1)\<rparr>"

text \<open>
  The prescaler selection \<^verbatim>\<open>WDP3..WDP0\<close> that the watchdog register holds: bit 5 and
  bits 2 to 0.
\<close>

definition watchdog_prescaler :: "8 word \<Rightarrow> nat" where
  "watchdog_prescaler w = 8 * unat (drop_bit 5 w AND 1) + unat (w AND 7)"

section \<open>The annoyances\<close>

definition annoy0 :: "device \<Rightarrow> device" where
  "annoy0 s =
     (let s = play2 400 50 s; s = play2 390 50 s; s = play2 380 50 s;
          s = play2 370 50 s; s = play2 360 50 s
      in play2 350 500 s)"

definition annoy1 :: "device \<Rightarrow> device" where
  "annoy1 s =
     (let s = play2 300 50 s; s = play2 290 50 s; s = play2 280 50 s;
          s = play2 270 50 s; s = play2 260 50 s; s = play2 250 50 s;
          s = play2 240 50 s; s = play2 230 50 s; s = play2 220 50 s
      in play2 210 500 s)"

definition annoy2 :: "device \<Rightarrow> device" where
  "annoy2 s = play2 350 500 s"

text \<open>
  \<^verbatim>\<open>int periods[100]\<close> is a list of 100 cells.  A read at an index from 0 to 99 yields the
  cell; a read at any other index yields the memory that follows the array, and the
  monitor records the index.
\<close>

definition periods_read :: "int list \<Rightarrow> int \<Rightarrow> device \<Rightarrow> int \<times> device" where
  "periods_read periods x s =
     (if 0 \<le> x \<and> x < 100 then (periods ! nat x, s)
      else (stack_beyond s, s\<lparr>out_of_bounds := out_of_bounds s @ [x]\<rparr>))"

function annoy3_fill :: "int \<Rightarrow> int \<Rightarrow> int \<Rightarrow> int list \<Rightarrow> device \<Rightarrow> int list \<times> device" where
  "annoy3_fill lo hi x periods s =
     (if x < 100
      then (let (v, s') = random2 lo hi s
            in annoy3_fill lo hi (x + 1)
                 (if 0 \<le> x then periods[nat x := s16 v] else periods) s')
      else (periods, s))"
  by pat_completeness auto

termination annoy3_fill
  by (relation "measure (\<lambda>(lo, hi, x, periods, s). nat (100 - x))") auto

declare annoy3_fill.simps [simp del]

function annoy3_forward :: "int list \<Rightarrow> int \<Rightarrow> device \<Rightarrow> device" where
  "annoy3_forward periods x s =
     (if x < 100
      then (let (p, s') = periods_read periods x s
            in annoy3_forward periods (x + 1) (play2 p 1 s'))
      else s)"
  by pat_completeness auto

termination annoy3_forward
  by (relation "measure (\<lambda>(periods, x, s). nat (100 - x))") auto

declare annoy3_forward.simps [simp del]

function annoy3_reverse :: "int list \<Rightarrow> int \<Rightarrow> device \<Rightarrow> device" where
  "annoy3_reverse periods x s =
     (if x \<ge> 0
      then (let (p, s') = periods_read periods x s
            in annoy3_reverse periods (x - 1) (play2 p 1 s'))
      else s)"
  by pat_completeness auto

termination annoy3_reverse
  by (relation "measure (\<lambda>(periods, x, s). nat (x + 1))") auto

declare annoy3_reverse.simps [simp del]

definition annoy3 :: "int \<Rightarrow> int \<Rightarrow> device \<Rightarrow> device" where
  "annoy3 lo hi s =
     (let (periods, s) = annoy3_fill lo hi 0 (replicate 100 0) s;
          s = annoy3_forward periods 0 s
      in annoy3_reverse periods 100 s)"

definition annoy :: "device \<Rightarrow> device" where
  "annoy s0 =
     (let (r, s) = random2 0 6 s0;
          annoyance = s16 r
      in if annoyance = 0 then annoy0 s
         else if annoyance = 1 then annoy1 s
         else if annoyance = 2 then annoy2 s
         else if annoyance = 3 then annoy3 400 500 s
         else if annoyance = 4 then annoy3 300 400 s
         else if annoyance = 5 then annoy3 200 300 s
         else s)"

section \<open>The scheduler\<close>

definition newTriggerCounter :: "device \<Rightarrow> device" where
  "newTriggerCounter s =
     (let (v, s') = random2 (MIN_COUNTER_TRIGGER s) (MAX_COUNTER_TRIGGER s) s
      in s'\<lparr>counter_trigger := v\<rparr>)"

text \<open>
  \<^verbatim>\<open>setup\<close>: the pins, the configuration, the seed, the first trigger with the initial
  delay added, the watchdog.  The writes that power down the converter and the
  comparator change no variable of the sketch and are left out.
\<close>

definition setup_sketch :: "device \<Rightarrow> device option" where
  "setup_sketch s0 =
     (let s = pinMode piezoPin True s0;
          s = pinMode activationPin False s
      in do {
        s \<leftarrow> readConfiguration s;
        let s = randomSeed (millis s) s;
        let s = newTriggerCounter s;
        let s = s\<lparr>counter_trigger := s32 (counter_trigger s + INITIAL_COUNTER_TRIGGER s)\<rparr>;
        Some (setup_watchdog (WATCHDOG_PARAM s) s)
      })"

text \<open>
  The day counter and the decay of the interval bounds, the part of \<^verbatim>\<open>loop\<close> before the
  trigger comparison.
\<close>

definition loop_days :: "device \<Rightarrow> device" where
  "loop_days s0 =
     (let s = (if started s0 then s0\<lparr>day_counter := s32 (day_counter s0 + 1)\<rparr> else s0)
      in if day_counter s \<ge> s32 (DAY * 3)
         then (let s = s\<lparr>day_counter := 0\<rparr>
               in if device_count s > 1
                  then (let s = s\<lparr>MIN_COUNTER_TRIGGER :=
                                   s16 ((MIN_COUNTER_TRIGGER s sdiv device_count s) * s16 (device_count s - 1))\<rparr>;
                            s = s\<lparr>MAX_COUNTER_TRIGGER :=
                                   s16 ((MAX_COUNTER_TRIGGER s sdiv device_count s) * s16 (device_count s - 1))\<rparr>;
                            s = s\<lparr>device_count := s16 (device_count s - 1)\<rparr>
                        in if WATCHDOG_PARAM s = TEST_WATCHDOG_PARAM
                           then (let s = play2 500 100 s; s = play2 568 100 s in play2 610 100 s)
                           else s)
                  else s)
         else s)"

text \<open>
  One turn of \<^verbatim>\<open>loop\<close> after \<^verbatim>\<open>sleep_mode()\<close> has returned, that is after the watchdog
  interrupt \<open>WDT_vect\<close> has run.  The interrupt is a step of its own: the model runs it
  between the turns of \<^verbatim>\<open>loop\<close>, not inside one.  The code under \<^verbatim>\<open>SERIAL_DEBUG\<close> is not
  compiled for the ATtiny and is left out.
\<close>

definition loop :: "device \<Rightarrow> device" where
  "loop s0 =
     (let s = loop_days s0
      in if watchdog_counter s \<ge> counter_trigger s
         then (let s = s\<lparr>watchdog_counter := 0\<rparr>;
                   s = newTriggerCounter s;
                   s = s\<lparr>started := True\<rparr>
               in annoy s)
         else if WATCHDOG_PARAM s = TEST_WATCHDOG_PARAM then play2 568 100 s
         else s)"

section \<open>Notions used in the statements\<close>

text \<open>The variables of the scheduler, as one tuple: what a step leaves unchanged.\<close>

definition vars :: "device \<Rightarrow> (int \<times> int \<times> int \<times> int \<times> int) \<times> (int \<times> bool \<times> int \<times> int)" where
  "vars s = ((MIN_COUNTER_TRIGGER s, MAX_COUNTER_TRIGGER s, WATCHDOG_PARAM s,
              INITIAL_COUNTER_TRIGGER s, device_count s),
             (day_counter s, started s, counter_trigger s, watchdog_counter s))"

text \<open>
  The invariant of the interval bounds: the lower bound is at most the upper bound and the
  device count is at least 1, all three within the range of \<^verbatim>\<open>int\<close>.
\<close>

definition config_inv :: "device \<Rightarrow> bool" where
  "config_inv s \<longleftrightarrow>
     c_int (MIN_COUNTER_TRIGGER s) \<and> c_int (MAX_COUNTER_TRIGGER s) \<and> c_int (device_count s) \<and>
     MIN_COUNTER_TRIGGER s \<le> MAX_COUNTER_TRIGGER s \<and> 1 \<le> device_count s"

text \<open>
  A wake is at a multi-day boundary when the day counter, incremented if the device has
  started, has reached three days of ticks.
\<close>

definition day_boundary :: "device \<Rightarrow> bool" where
  "day_boundary s \<longleftrightarrow>
     (if started s then s32 (day_counter s + 1) else day_counter s) \<ge> DAY * 3"

definition bounds :: "device \<Rightarrow> int \<times> int \<times> int" where
  "bounds s = (MIN_COUNTER_TRIGGER s, MAX_COUNTER_TRIGGER s, device_count s)"

text \<open>Concrete environments: a pin that is never tapped, a generator that yields 0.\<close>

definition never_tapped :: "nat \<Rightarrow> bool" where
  "never_tapped t = False"

definition zero_generator :: "32 word \<Rightarrow> nat \<Rightarrow> nat" where
  "zero_generator x i = 0"

text \<open>A started device one tick before the multi-day boundary, with given bounds.\<close>

definition before_boundary :: "int \<Rightarrow> int \<Rightarrow> int \<Rightarrow> device" where
  "before_boundary lo hi n =
     (power_on never_tapped zero_generator 0)
       \<lparr>MIN_COUNTER_TRIGGER := lo, MAX_COUNTER_TRIGGER := hi, device_count := n,
        day_counter := DAY * 3 - 1, started := True\<rparr>"

text \<open>
  The random number generator as the sketch sees it: the generator, the seed and the
  number of values drawn.
\<close>

definition rng :: "device \<Rightarrow> (32 word \<Rightarrow> nat \<Rightarrow> nat) \<times> 32 word \<times> nat" where
  "rng s = (generator s, seed s, rng_pos s)"

text \<open>
  \<open>elapsed s T s'\<close>: the state \<open>s'\<close> is \<open>s\<close> at the time \<open>T\<close>, with more cycles emitted and
  nothing else changed.
\<close>

definition elapsed :: "device \<Rightarrow> nat \<Rightarrow> device \<Rightarrow> bool" where
  "elapsed s T s' \<longleftrightarrow> s' = s\<lparr>wave := wave s', clock := T\<rparr>"

subsection \<open>Taps within the timing windows\<close>

text \<open>
  A tap \<open>(a, b)\<close> holds the activation pin high from the millisecond \<open>a\<close> up to, but not
  including, \<open>b\<close>.  After a tap seen at \<open>a\<close> the tap counter plays its tone for 100 ms and
  waits 100 ms, then samples the pin every 10 ms until it is low (\<open>release_time\<close>), and
  waits 100 ms more before it listens again (\<open>ready_time\<close>).
\<close>

definition release_time :: "nat \<Rightarrow> nat \<Rightarrow> nat" where
  "release_time a b = a + 200 + 10 * ((b - (a + 200) + 9) div 10)"

definition ready_time :: "nat \<Rightarrow> nat \<Rightarrow> nat" where
  "ready_time a b = release_time a b + 100"

text \<open>
  \<open>taps_ok lv T r ts\<close>: from the time \<open>r\<close> on, with the timeout \<open>T\<close>, the level \<open>lv\<close> consists
  of the taps \<open>ts\<close> within the timing windows: every tap begins when the counter listens
  and less than \<open>T\<close> after it began to listen, the pin is low between the taps and until the
  counter listens again, and after the last tap it stays low for a full timeout (which
  ends before \<^verbatim>\<open>millis()\<close> wraps around).  \<open>stage_end\<close> is the time at which the counter
  then returns.
\<close>

fun taps_ok :: "(nat \<Rightarrow> bool) \<Rightarrow> nat \<Rightarrow> nat \<Rightarrow> (nat \<times> nat) list \<Rightarrow> bool" where
  "taps_ok lv T r [] \<longleftrightarrow> r + T < 2 ^ 32 \<and> (\<forall>t\<in>{r..<r + T}. \<not> lv t)"
| "taps_ok lv T r ((a, b) # ts) \<longleftrightarrow>
     r \<le> a \<and> a < r + T \<and> a < b \<and>
     (\<forall>t\<in>{r..<a}. \<not> lv t) \<and> (\<forall>t\<in>{a..<b}. lv t) \<and> (\<forall>t\<in>{b..<ready_time a b}. \<not> lv t) \<and>
     taps_ok lv T (ready_time a b) ts"

fun stage_end :: "nat \<Rightarrow> nat \<Rightarrow> (nat \<times> nat) list \<Rightarrow> nat" where
  "stage_end T r [] = r + T"
| "stage_end T r ((a, b) # ts) = stage_end T (ready_time a b) ts"

text \<open>
  An activated run: the pin is low from the end of the power-on beep (300 ms) to the
  activation tap at \<open>a\<close>, within the window of five seconds; the taps \<open>ds\<close> are made in the
  days stage, which begins after the activation tone; the taps \<open>ks\<close> in the stage of the
  other devices, which begins after the confirmation beeps of the days (one beep of 400 ms
  for each day counted, or one for zero days); and the pin is low during the second of the
  test mode query, which begins after the confirmation beeps of the devices.
\<close>

definition others_start :: "nat \<Rightarrow> (nat \<times> nat) list \<Rightarrow> nat" where
  "others_start a ds =
     stage_end 1000 (a + 300) ds
       + 400 * (if length ds mod 256 = 0 then 1 else length ds mod 256)"

definition test_start :: "nat \<Rightarrow> (nat \<times> nat) list \<Rightarrow> (nat \<times> nat) list \<Rightarrow> nat" where
  "test_start a ds ks = stage_end 1000 (others_start a ds) ks + 400 * (length ks mod 256 + 1)"

definition activated_run :: "(nat \<Rightarrow> bool) \<Rightarrow> nat \<Rightarrow> (nat \<times> nat) list \<Rightarrow> (nat \<times> nat) list \<Rightarrow> bool" where
  "activated_run lv a ds ks \<longleftrightarrow>
     300 \<le> a \<and> a < 5300 \<and> (\<forall>t\<in>{300..<a}. \<not> lv t) \<and> lv a \<and>
     taps_ok lv 1000 (a + 300) ds \<and>
     taps_ok lv 1000 (others_start a ds) ks \<and>
     taps_ok lv 1000 (test_start a ds ks) []"

text \<open>The pin stays low during the activation window.\<close>

definition activation_window_quiet :: "(nat \<Rightarrow> bool) \<Rightarrow> bool" where
  "activation_window_quiet lv \<longleftrightarrow> (\<forall>t\<in>{300..<5300}. \<not> lv t)"

subsection \<open>Concrete runs\<close>

text \<open>
  A train of \<open>n\<close> taps of 50 ms, one every 400 ms from \<open>t0\<close> on, and its taps from the
  \<open>i\<close>-th on.
\<close>

definition train_level :: "nat \<Rightarrow> nat \<Rightarrow> nat \<Rightarrow> bool" where
  "train_level t0 n t \<longleftrightarrow> t0 \<le> t \<and> t < t0 + 400 * n \<and> (t - t0) mod 400 < 50"

definition train_taps :: "nat \<Rightarrow> nat \<Rightarrow> nat \<Rightarrow> (nat \<times> nat) list" where
  "train_taps t0 i n = map (\<lambda>j. (t0 + 400 * j, t0 + 400 * j + 50)) [i..<n]"

text \<open>
  The scenario of an activation tap at 1000 ms, three taps for the days and two taps for
  the other devices.
\<close>

definition scenario_level :: "nat \<Rightarrow> bool" where
  "scenario_level t \<longleftrightarrow>
     (1000 \<le> t \<and> t < 1050) \<or>
     (1400 \<le> t \<and> t < 1450) \<or> (1800 \<le> t \<and> t < 1850) \<or> (2200 \<le> t \<and> t < 2250) \<or>
     (5000 \<le> t \<and> t < 5050) \<or> (5400 \<le> t \<and> t < 5450)"

definition scenario_days :: "(nat \<times> nat) list" where
  "scenario_days = [(1400, 1450), (1800, 1850), (2200, 2250)]"

definition scenario_others :: "(nat \<times> nat) list" where
  "scenario_others = [(5000, 5050), (5400, 5450)]"

section \<open>What the tone generator and the annoyances leave unchanged\<close>

lemma vars_eqD:
  assumes "vars s' = vars s"
  shows "MIN_COUNTER_TRIGGER s' = MIN_COUNTER_TRIGGER s"
    and "MAX_COUNTER_TRIGGER s' = MAX_COUNTER_TRIGGER s"
    and "WATCHDOG_PARAM s' = WATCHDOG_PARAM s"
    and "INITIAL_COUNTER_TRIGGER s' = INITIAL_COUNTER_TRIGGER s"
    and "device_count s' = device_count s"
    and "day_counter s' = day_counter s"
    and "started s' = started s"
    and "counter_trigger s' = counter_trigger s"
    and "watchdog_counter s' = watchdog_counter s"
  using assms by (simp_all add: vars_def)

lemma play_loop_vars: "vars (play_loop e pa pb s) = vars s"
proof (induction e pa pb s rule: play_loop.induct)
  case (1 e pa pb s)
  show ?case
  proof (cases "millis s < e")
    case True
    with 1 show ?thesis by (subst play_loop.simps) (simp add: vars_def)
  next
    case False
    then show ?thesis by (subst play_loop.simps) simp
  qed
qed

lemma play4_vars: "vars (play4 p d q duty s) = vars s"
  using play_loop_vars [of "millis s + word_of_int d" "play_pa p duty" "play_pb p duty" s]
  by (simp add: play4_def delay_def Let_def vars_def)

lemma play2_vars: "vars (play2 p d s) = vars s"
  by (simp add: play2_def play4_vars)

lemma random2_vars: "vars (snd (random2 a b s)) = vars s"
  by (simp add: random2_def random1_def random_raw_def Let_def vars_def split: prod.splits)

lemma annoy0_vars: "vars (annoy0 s) = vars s"
  by (simp add: annoy0_def Let_def play2_vars)

lemma annoy1_vars: "vars (annoy1 s) = vars s"
  by (simp add: annoy1_def Let_def play2_vars)

lemma annoy2_vars: "vars (annoy2 s) = vars s"
  by (simp add: annoy2_def play2_vars)

lemma periods_read_vars: "vars (snd (periods_read ps x s)) = vars s"
  by (simp add: periods_read_def vars_def)

lemma annoy3_fill_vars: "vars (snd (annoy3_fill lo hi x ps s)) = vars s"
proof (induction lo hi x ps s rule: annoy3_fill.induct)
  case (1 lo hi x ps s)
  show ?case
  proof (cases "x < 100")
    case True
    obtain v s' where r: "random2 lo hi s = (v, s')" by (cases "random2 lo hi s")
    from r have "vars s' = vars s" using random2_vars [of lo hi s] by simp
    with 1 [OF True r [symmetric] refl] True r show ?thesis
      by (subst annoy3_fill.simps) simp
  next
    case False
    then show ?thesis by (subst annoy3_fill.simps) simp
  qed
qed

lemma annoy3_forward_vars: "vars (annoy3_forward ps x s) = vars s"
proof (induction ps x s rule: annoy3_forward.induct)
  case (1 ps x s)
  show ?case
  proof (cases "x < 100")
    case True
    obtain p s' where r: "periods_read ps x s = (p, s')" by (cases "periods_read ps x s")
    from r have "vars s' = vars s" using periods_read_vars [of ps x s] by simp
    with 1 [OF True r [symmetric] refl] True r show ?thesis
      by (subst annoy3_forward.simps) (simp add: play2_vars)
  next
    case False
    then show ?thesis by (subst annoy3_forward.simps) simp
  qed
qed

lemma annoy3_reverse_vars: "vars (annoy3_reverse ps x s) = vars s"
proof (induction ps x s rule: annoy3_reverse.induct)
  case (1 ps x s)
  show ?case
  proof (cases "x \<ge> 0")
    case True
    obtain p s' where r: "periods_read ps x s = (p, s')" by (cases "periods_read ps x s")
    from r have "vars s' = vars s" using periods_read_vars [of ps x s] by simp
    with 1 [OF True r [symmetric] refl] True r show ?thesis
      by (subst annoy3_reverse.simps) (simp add: play2_vars)
  next
    case False
    then show ?thesis by (subst annoy3_reverse.simps) simp
  qed
qed

lemma annoy3_vars: "vars (annoy3 lo hi s) = vars s"
proof -
  obtain ps s1 where f: "annoy3_fill lo hi 0 (replicate 100 0) s = (ps, s1)"
    by (cases "annoy3_fill lo hi 0 (replicate 100 0) s")
  then have "vars s1 = vars s"
    using annoy3_fill_vars [of lo hi 0 "replicate 100 0" s] by simp
  with f show ?thesis
    by (simp add: annoy3_def annoy3_forward_vars annoy3_reverse_vars)
qed

lemma annoy_vars: "vars (annoy s) = vars s"
proof -
  obtain r s1 where f: "random2 0 6 s = (r, s1)" by (cases "random2 0 6 s")
  then have "vars s1 = vars s" using random2_vars [of 0 6 s] by simp
  with f show ?thesis
    by (simp add: annoy_def Let_def annoy0_vars annoy1_vars annoy2_vars annoy3_vars)
qed

section \<open>Arithmetic of the decay\<close>

lemma s16_id: "c_int x \<Longrightarrow> s16 x = x"
  by (simp add: s16_def c_int_def)

lemma c_int_s16: "c_int (s16 x)"
proof -
  have "0 \<le> (x + 32768) mod 65536" "(x + 32768) mod 65536 < 65536"
    by simp_all
  then show ?thesis
    unfolding s16_def c_int_def by linarith
qed

lemma s32_id: "c_long x \<Longrightarrow> s32 x = x"
  by (simp add: s32_def c_long_def)

lemma sdiv_pos:
  "0 < d \<Longrightarrow> (a::int) sdiv d = (if 0 \<le> a then a div d else - ((- a) div d))"
  by (auto simp: signed_divide_int_def sgn_if)

lemma sdiv_mono:
  assumes "0 < d" "(a::int) \<le> b"
  shows "a sdiv d \<le> b sdiv d"
proof -
  have nn: "0 \<le> x div d" if "0 \<le> x" for x :: int
    using that assms(1) by (simp add: pos_imp_zdiv_nonneg_iff)
  show ?thesis
  proof (cases "0 \<le> a")
    case True
    with assms show ?thesis
      by (simp add: sdiv_pos zdiv_mono1)
  next
    case False
    show ?thesis
    proof (cases "0 \<le> b")
      case True
      with False assms nn [of b] nn [of "- a"] show ?thesis
        by (simp add: sdiv_pos)
    next
      case b: False
      from assms have "(- b) div d \<le> (- a) div d"
        by (intro zdiv_mono1) simp_all
      with False b assms show ?thesis
        by (simp add: sdiv_pos)
    qed
  qed
qed

lemma div_mult_le:
  assumes "0 < d"
  shows "(x div d) * d \<le> (x::int)"
proof -
  have "(x div d) * d = x - x mod d"
    by (simp add: minus_mod_eq_div_mult)
  moreover have "0 \<le> x mod d"
    using assms by simp
  ultimately show ?thesis by linarith
qed

lemma decay_range:
  assumes "1 < d" "c_int a"
  shows "c_int ((a sdiv d) * (d - 1))"
proof (cases "0 \<le> a")
  case True
  have q: "0 \<le> a div d" using True assms(1) by (simp add: pos_imp_zdiv_nonneg_iff)
  have "(a div d) * (d - 1) \<le> (a div d) * d"
    using q by (intro mult_left_mono) simp_all
  also have "\<dots> \<le> a"
    using assms(1) by (intro div_mult_le) simp
  finally have "(a div d) * (d - 1) \<le> a" .
  moreover have "0 \<le> (a div d) * (d - 1)"
    using q assms(1) by simp
  ultimately show ?thesis
    using True assms by (simp add: sdiv_pos c_int_def)
next
  case False
  then have na: "0 \<le> - a" by simp
  have q: "0 \<le> (- a) div d" using na assms(1) by (simp add: pos_imp_zdiv_nonneg_iff)
  have "((- a) div d) * (d - 1) \<le> ((- a) div d) * d"
    using q by (intro mult_left_mono) simp_all
  also have "\<dots> \<le> - a"
    using assms(1) by (intro div_mult_le) simp
  finally have "((- a) div d) * (d - 1) \<le> - a" .
  moreover have "0 \<le> ((- a) div d) * (d - 1)"
    using q assms(1) by simp
  ultimately show ?thesis
    using False assms by (simp add: sdiv_pos c_int_def)
qed

lemma decay_step:
  assumes "c_int a" "c_int b" "a \<le> b" "c_int d" "1 < d"
  shows "s16 ((a sdiv d) * s16 (d - 1)) \<le> s16 ((b sdiv d) * s16 (d - 1))"
proof -
  have d1: "s16 (d - 1) = d - 1"
    using assms by (intro s16_id) (simp add: c_int_def)
  have "(a sdiv d) * (d - 1) \<le> (b sdiv d) * (d - 1)"
    using assms sdiv_mono [of d a b] by (intro mult_right_mono) simp_all
  then show ?thesis
    using assms by (simp add: d1 s16_id decay_range)
qed

lemma loop_days_inv:
  assumes "config_inv s"
  shows "config_inv (loop_days s)"
proof -
  let ?s1 = "if started s then s\<lparr>day_counter := s32 (day_counter s + 1)\<rparr> else s"
  let ?d = "device_count s"
  have d1: "1 < ?d \<Longrightarrow> c_int (s16 (?d - 1)) \<and> 1 \<le> s16 (?d - 1)"
    using assms by (simp add: config_inv_def c_int_def s16_def)
  have mono: "1 < ?d \<Longrightarrow>
      s16 ((MIN_COUNTER_TRIGGER s sdiv ?d) * s16 (?d - 1)) \<le> s16 ((MAX_COUNTER_TRIGGER s sdiv ?d) * s16 (?d - 1))"
    using assms by (intro decay_step) (simp_all add: config_inv_def)
  show ?thesis
    using assms d1 mono
    by (auto simp: loop_days_def Let_def config_inv_def c_int_s16 vars_eqD [OF play2_vars])
qed

section \<open>The scheduler step\<close>

lemma smod_nonneg: "0 \<le> k \<Longrightarrow> 0 < l \<Longrightarrow> (k::int) smod l = k mod l"
  by (auto simp: signed_modulo_int_def sgn_if)

lemma random2_range:
  assumes "c_int lo" "c_int hi" "lo \<le> hi"
  shows "lo \<le> fst (random2 lo hi s) \<and> fst (random2 lo hi s) \<le> hi"
proof (cases "hi \<le> lo")
  case True
  with assms show ?thesis by (simp add: random2_def)
next
  case False
  let ?raw = "int (generator s (seed s) (rng_pos s) mod 2147483648)"
  have diff: "s32 (hi - lo) = hi - lo"
    using assms False by (intro s32_id) (simp add: c_int_def c_long_def)
  have pos: "0 < hi - lo" using False by simp
  have r: "?raw smod (hi - lo) = ?raw mod (hi - lo)"
    using pos by (intro smod_nonneg) simp_all
  have lb: "0 \<le> ?raw mod (hi - lo)" and ub: "?raw mod (hi - lo) < hi - lo"
    using pos by simp_all
  have v: "s32 (?raw mod (hi - lo) + lo) = ?raw mod (hi - lo) + lo"
    using lb ub assms by (intro s32_id) (simp add: c_int_def c_long_def)
  have "fst (random2 lo hi s) = ?raw mod (hi - lo) + lo"
    using False pos by (simp add: random2_def random1_def random_raw_def Let_def diff r v)
  with lb ub show ?thesis by simp
qed

lemma newTriggerCounter_vars:
  "vars (newTriggerCounter s) =
     vars (s\<lparr>counter_trigger := fst (random2 (MIN_COUNTER_TRIGGER s) (MAX_COUNTER_TRIGGER s) s)\<rparr>)"
proof -
  obtain v s' where r: "random2 (MIN_COUNTER_TRIGGER s) (MAX_COUNTER_TRIGGER s) s = (v, s')"
    by (cases "random2 (MIN_COUNTER_TRIGGER s) (MAX_COUNTER_TRIGGER s) s")
  then have "vars s' = vars s"
    using random2_vars [of "MIN_COUNTER_TRIGGER s" "MAX_COUNTER_TRIGGER s" s] by simp
  with r show ?thesis
    by (simp add: newTriggerCounter_def vars_def)
qed

lemma loop_days_trigger:
  "counter_trigger (loop_days s) = counter_trigger s \<and> watchdog_counter (loop_days s) = watchdog_counter s"
  by (simp add: loop_days_def Let_def vars_eqD [OF play2_vars])

lemma loop_fired:
  assumes "counter_trigger s \<le> watchdog_counter s"
  shows "vars (loop s) =
     vars (loop_days s\<lparr>watchdog_counter := 0,
        counter_trigger := fst (random2 (MIN_COUNTER_TRIGGER (loop_days s)) (MAX_COUNTER_TRIGGER (loop_days s))
                                 (loop_days s\<lparr>watchdog_counter := 0\<rparr>)),
        started := True\<rparr>)"
proof -
  let ?t = "loop_days s\<lparr>watchdog_counter := 0\<rparr>"
  have "vars (loop s) = vars ((newTriggerCounter ?t)\<lparr>started := True\<rparr>)"
    using assms loop_days_trigger [of s] by (simp add: loop_def Let_def annoy_vars)
  also have "\<dots> = vars (?t\<lparr>counter_trigger := fst (random2 (MIN_COUNTER_TRIGGER ?t) (MAX_COUNTER_TRIGGER ?t) ?t),
       started := True\<rparr>)"
    using newTriggerCounter_vars [of ?t] by (simp add: vars_def)
  finally show ?thesis by (simp add: vars_def)
qed

lemma loop_not_fired:
  assumes "\<not> counter_trigger s \<le> watchdog_counter s"
  shows "vars (loop s) = vars (loop_days s)"
  using assms loop_days_trigger [of s] by (simp add: loop_def Let_def play2_vars)

text \<open>
  Claim C3.  On a wake at which the watchdog counter has reached the trigger threshold,
  \<^verbatim>\<open>loop\<close> leaves the watchdog counter at exactly 0 and the new threshold lies in the
  closed interval between the lower and the upper interval bound that hold after the step.
  The interval invariant is assumed of the state before the step; it holds of every state
  the sketch reaches.
\<close>

theorem trigger_redrawn_within_bounds:
  assumes "config_inv s" and "counter_trigger s \<le> watchdog_counter s"
  shows "watchdog_counter (loop s) = 0 \<and>
         MIN_COUNTER_TRIGGER (loop s) \<le> counter_trigger (loop s) \<and>
         counter_trigger (loop s) \<le> MAX_COUNTER_TRIGGER (loop s)"
proof -
  let ?d = "loop_days s"
  have inv: "config_inv ?d" using assms(1) by (rule loop_days_inv)
  then have "MIN_COUNTER_TRIGGER ?d \<le> fst (random2 (MIN_COUNTER_TRIGGER ?d) (MAX_COUNTER_TRIGGER ?d) (?d\<lparr>watchdog_counter := 0\<rparr>))
     \<and> fst (random2 (MIN_COUNTER_TRIGGER ?d) (MAX_COUNTER_TRIGGER ?d) (?d\<lparr>watchdog_counter := 0\<rparr>)) \<le> MAX_COUNTER_TRIGGER ?d"
    by (intro random2_range) (simp_all add: config_inv_def)
  then show ?thesis
    using vars_eqD [OF loop_fired [OF assms(2)]] by simp
qed

text \<open>
  Claim C10.  At a multi-day boundary \<^verbatim>\<open>loop\<close> resets the day counter to 0, whatever the
  device count is, and after every turn of \<^verbatim>\<open>loop\<close> the day counter is at most three days
  of ticks.
\<close>

theorem day_counter_reset_at_boundary:
  "(day_boundary s \<longrightarrow> day_counter (loop s) = 0) \<and> day_counter (loop s) \<le> DAY * 3"
proof -
  have d: "(day_boundary s \<longrightarrow> day_counter (loop_days s) = 0) \<and> day_counter (loop_days s) \<le> DAY * 3"
    by (simp add: loop_days_def day_boundary_def Let_def DAY_def s32_def vars_eqD [OF play2_vars])
  show ?thesis
  proof (cases "counter_trigger s \<le> watchdog_counter s")
    case True
    from vars_eqD [OF loop_fired [OF True]] d show ?thesis by simp
  next
    case False
    from vars_eqD [OF loop_not_fired [OF False]] d show ?thesis by simp
  qed
qed

lemma loop_bounds: "bounds (loop s) = bounds (loop_days s)"
proof (cases "counter_trigger s \<le> watchdog_counter s")
  case True
  from vars_eqD [OF loop_fired [OF True]] show ?thesis by (simp add: bounds_def)
next
  case False
  from vars_eqD [OF loop_not_fired [OF False]] show ?thesis by (simp add: bounds_def)
qed

lemma s32_DAY3: "s32 (DAY * 3) = DAY * 3"
  by (simp add: s32_def DAY_def)

lemma loop_days_at_boundary:
  assumes "day_boundary s"
  shows "bounds (loop_days s) =
     (if device_count s > 1
      then (s16 ((MIN_COUNTER_TRIGGER s sdiv device_count s) * s16 (device_count s - 1)),
            s16 ((MAX_COUNTER_TRIGGER s sdiv device_count s) * s16 (device_count s - 1)),
            s16 (device_count s - 1))
      else bounds s)"
proof (cases "started s")
  case True
  with assms have "DAY * 3 \<le> s32 (day_counter s + 1)"
    by (simp add: day_boundary_def)
  with True show ?thesis
    by (simp add: loop_days_def Let_def s32_DAY3 bounds_def vars_eqD [OF play2_vars])
next
  case False
  with assms have "DAY * 3 \<le> day_counter s"
    by (simp add: day_boundary_def)
  with False show ?thesis
    by (simp add: loop_days_def Let_def s32_DAY3 bounds_def vars_eqD [OF play2_vars])
qed

text \<open>
  Claim C4.  At a multi-day boundary the bounds (100, 200) with device count 4 become
  (75, 150) with device count 3; the next boundaries give (50, 100) with 2 and (25, 50)
  with 1; with a device count of 1 (or less) a boundary changes neither the bounds nor the
  device count.
\<close>

theorem decay_example:
  assumes "day_boundary s"
  shows "(bounds s = (100, 200, 4) \<longrightarrow> bounds (loop s) = (75, 150, 3)) \<and>
         (bounds s = (75, 150, 3) \<longrightarrow> bounds (loop s) = (50, 100, 2)) \<and>
         (bounds s = (50, 100, 2) \<longrightarrow> bounds (loop s) = (25, 50, 1)) \<and>
         (device_count s \<le> 1 \<longrightarrow> bounds (loop s) = bounds s)"
proof -
  have "bounds (loop s) =
     (if device_count s > 1
      then (s16 ((MIN_COUNTER_TRIGGER s sdiv device_count s) * s16 (device_count s - 1)),
            s16 ((MAX_COUNTER_TRIGGER s sdiv device_count s) * s16 (device_count s - 1)),
            s16 (device_count s - 1))
      else bounds s)"
    using loop_days_at_boundary [OF assms] by (simp add: loop_bounds)
  then show ?thesis
    by (auto simp: bounds_def s16_def)
qed

lemma interval_invariant_step:
  "config_inv s \<Longrightarrow> config_inv (loop s) \<and> config_inv (WDT_vect s)"
proof -
  assume a: "config_inv s"
  have "config_inv (loop_days s)" using a by (rule loop_days_inv)
  moreover have "bounds (loop s) = bounds (loop_days s)" by (rule loop_bounds)
  ultimately have "config_inv (loop s)"
    by (simp add: config_inv_def bounds_def)
  moreover have "config_inv (WDT_vect s)"
    using a by (simp add: config_inv_def WDT_vect_def)
  ultimately show ?thesis by simp
qed

section \<open>The tone generator\<close>

lemma play_loop_wave: "\<exists>n. wave (play_loop e pa pb s) = wave s @ replicate n (pa, pb)"
proof (induction e pa pb s rule: play_loop.induct)
  case (1 e pa pb s)
  show ?case
  proof (cases "millis s < e")
    case True
    from 1 [OF True] obtain n where
      "wave (play_loop e pa pb (s\<lparr>wave := wave s @ [(pa, pb)], clock := clock s + 1\<rparr>))
         = wave s @ replicate (Suc n) (pa, pb)"
      by (auto simp: replicate_append_same)
    with True show ?thesis
      by (subst play_loop.simps) (auto simp del: replicate_Suc)
  next
    case False
    then have "wave (play_loop e pa pb s) = wave s @ replicate 0 (pa, pb)"
      by (subst play_loop.simps) simp
    then show ?thesis by blast
  qed
qed

lemma play4_zero_duration: "play4 period 0 pauseMillis duty s = delay (word_of_int pauseMillis) s"
  by (simp add: play4_def Let_def play_loop.simps)

lemma play_pa_zero_period: "play_pa 0 duty = 0"
  by (simp add: play_pa_def s32_def)

lemma play_pa_in_range:
  assumes "0 \<le> period" "0 \<le> duty" "period * duty \<le> 2147483647"
  shows "uint (play_pa period duty) = min (period * duty div 100) 150"
proof -
  let ?x = "period * duty"
  have x0: "0 \<le> ?x" using assms by simp
  have w: "s32 ?x = ?x"
    using x0 assms(3) by (intro s32_id) (simp add: c_long_def)
  have q: "?x sdiv 100 = ?x div 100"
    using x0 by (simp add: sdiv_pos)
  have r: "0 \<le> ?x div 100" "?x div 100 < 4294967296"
    using x0 assms(3) by (simp_all add: pos_imp_zdiv_nonneg_iff)
  have u: "uint (word_of_int (?x div 100) :: 32 word) = ?x div 100"
    using r by (simp add: uint_word_of_int)
  show ?thesis
    using u by (simp add: play_pa_def Let_def w q word_less_def min_def)
qed

text \<open>
  Claim C8, as amended.  \<^verbatim>\<open>play\<close> has no error result.  With a duration of 0 it emits no
  cycle and only lets the pause pass; with a period of 0 the pin is held high for 0
  microseconds; every cycle it emits holds the pin high for \<open>play_pa\<close> microseconds; for a
  period and a duty that are not negative and whose product fits a \<^verbatim>\<open>long\<close>, \<open>play_pa\<close>
  is period times duty divided by 100, capped at 150.
\<close>

theorem play_tone_shape:
  "play4 period 0 pauseMillis duty s = delay (word_of_int pauseMillis) s \<and>
   play_pa 0 duty = 0 \<and>
   (\<exists>n. wave (play4 period durationMillis pauseMillis duty s) =
          wave s @ replicate n (play_pa period duty, play_pb period duty)) \<and>
   (0 \<le> period \<and> 0 \<le> duty \<and> period * duty \<le> 2147483647 \<longrightarrow>
      uint (play_pa period duty) = min (period * duty div 100) 150)"
proof -
  have "\<exists>n. wave (play4 period durationMillis pauseMillis duty s) =
          wave s @ replicate n (play_pa period duty, play_pb period duty)"
    using play_loop_wave [of "millis s + word_of_int durationMillis" "play_pa period duty" "play_pb period duty" s]
    by (simp add: play4_def Let_def delay_def)
  then show ?thesis
    by (simp add: play4_zero_duration play_pa_zero_period play_pa_in_range)
qed

theorem play_tone_shape_witness:
  "(0::int) \<le> 400 \<and> (0::int) \<le> DUTY \<and> 400 * DUTY \<le> 2147483647 \<and> uint (play_pa 400 DUTY) = 120"
  using play_tone_shape [of 400 0 DUTY "power_on never_tapped zero_generator 0" 50]
  by (simp add: DUTY_def)

text \<open>
  Claim C8 as stated, for every period: at the period -10 the product with the duty
  divided by 100 is -3, but the pin is held high for 150 microseconds.
\<close>

theorem play_negative_period_counterexample:
  "uint (play_pa (- 10) DUTY) \<noteq> min ((- 10) * DUTY sdiv 100) 150"
  by (simp add: play_pa_def DUTY_def s32_def signed_divide_int_def Let_def)

section \<open>The randomized glide\<close>

lemma play_loop_oob: "out_of_bounds (play_loop e pa pb s) = out_of_bounds s"
proof (induction e pa pb s rule: play_loop.induct)
  case (1 e pa pb s)
  show ?case
  proof (cases "millis s < e")
    case True
    with 1 show ?thesis by (subst play_loop.simps) simp
  next
    case False
    then show ?thesis by (subst play_loop.simps) simp
  qed
qed

lemma play2_oob: "out_of_bounds (play2 p d s) = out_of_bounds s"
  by (simp add: play2_def play4_def Let_def delay_def play_loop_oob)

lemma random2_oob: "out_of_bounds (snd (random2 a b s)) = out_of_bounds s"
  by (simp add: random2_def random1_def random_raw_def Let_def split: prod.splits)

lemma annoy3_fill_oob: "out_of_bounds (snd (annoy3_fill lo hi x ps s)) = out_of_bounds s"
proof (induction lo hi x ps s rule: annoy3_fill.induct)
  case (1 lo hi x ps s)
  show ?case
  proof (cases "x < 100")
    case True
    obtain v s' where r: "random2 lo hi s = (v, s')" by (cases "random2 lo hi s")
    from r have "out_of_bounds s' = out_of_bounds s" using random2_oob [of lo hi s] by simp
    with 1 [OF True r [symmetric] refl] True r show ?thesis
      by (subst annoy3_fill.simps) simp
  next
    case False
    then show ?thesis by (subst annoy3_fill.simps) simp
  qed
qed

lemma annoy3_forward_oob:
  "0 \<le> x \<Longrightarrow> out_of_bounds (annoy3_forward ps x s) = out_of_bounds s"
proof (induction ps x s rule: annoy3_forward.induct)
  case (1 ps x s)
  show ?case
  proof (cases "x < 100")
    case True
    with "1.prems" have r: "periods_read ps x s = (ps ! nat x, s)"
      by (simp add: periods_read_def)
    from "1.IH" [OF True r [symmetric] refl] "1.prems" True r show ?thesis
      by (subst annoy3_forward.simps) (simp add: play2_oob)
  next
    case False
    then show ?thesis by (subst annoy3_forward.simps) simp
  qed
qed

lemma annoy3_reverse_oob:
  "x < 100 \<Longrightarrow> out_of_bounds (annoy3_reverse ps x s) = out_of_bounds s"
proof (induction ps x s rule: annoy3_reverse.induct)
  case (1 ps x s)
  show ?case
  proof (cases "0 \<le> x")
    case True
    with "1.prems" have r: "periods_read ps x s = (ps ! nat x, s)"
      by (simp add: periods_read_def)
    from "1.IH" [OF True r [symmetric] refl] "1.prems" True r show ?thesis
      by (subst annoy3_reverse.simps) (simp add: play2_oob)
  next
    case False
    then show ?thesis by (subst annoy3_reverse.simps) simp
  qed
qed

text \<open>
  Claim C9 on the code.  Every run of \<^verbatim>\<open>annoy3\<close> reads \<^verbatim>\<open>periods[100]\<close>, one cell past the
  array of 100 cells: the reverse loop starts at index 100.
\<close>

theorem annoy3_reads_past_array:
  "out_of_bounds (annoy3 lo hi s) = out_of_bounds s @ [100]"
proof -
  obtain ps s1 where f: "annoy3_fill lo hi 0 (replicate 100 0) s = (ps, s1)"
    by (cases "annoy3_fill lo hi 0 (replicate 100 0) s")
  then have s1: "out_of_bounds s1 = out_of_bounds s"
    using annoy3_fill_oob [of lo hi 0 "replicate 100 0" s] by simp
  let ?s2 = "annoy3_forward ps 0 s1"
  have s2: "out_of_bounds ?s2 = out_of_bounds s"
    using s1 by (simp add: annoy3_forward_oob)
  have "annoy3_reverse ps 100 ?s2 =
      annoy3_reverse ps 99 (play2 (stack_beyond ?s2) 1 (?s2\<lparr>out_of_bounds := out_of_bounds ?s2 @ [100]\<rparr>))"
    by (subst annoy3_reverse.simps) (simp add: periods_read_def)
  then have "out_of_bounds (annoy3_reverse ps 100 ?s2) = out_of_bounds s @ [100]"
    using s2 by (simp add: annoy3_reverse_oob play2_oob)
  with f show ?thesis
    by (simp add: annoy3_def)
qed

section \<open>Closed forms of the timed loops\<close>

lemma millis_less_iff:
  assumes "a < 2 ^ 32" "b < 2 ^ 32"
  shows "(of_nat a :: 32 word) < of_nat b \<longleftrightarrow> a < b"
  using assms by (simp add: word_of_nat_less_iff take_bit_nat_eq_self)

lemma play_loop_closed:
  "clock s + d < 2 ^ 32 \<Longrightarrow>
   play_loop (of_nat (clock s + d)) pa pb s =
     s\<lparr>wave := wave s @ replicate d (pa, pb), clock := clock s + d\<rparr>"
proof (induction d arbitrary: s)
  case 0
  then show ?case
    by (subst play_loop.simps) (simp add: millis_def)
next
  case (Suc d)
  let ?s = "s\<lparr>wave := wave s @ [(pa, pb)], clock := clock s + 1\<rparr>"
  have lt: "millis s < of_nat (clock s + Suc d)"
    unfolding millis_def using Suc.prems by (subst millis_less_iff) simp_all
  have "play_loop (of_nat (clock ?s + d)) pa pb ?s =
      ?s\<lparr>wave := wave ?s @ replicate d (pa, pb), clock := clock ?s + d\<rparr>"
    using Suc.prems by (intro Suc.IH) simp
  then have "play_loop (of_nat (clock s + Suc d)) pa pb ?s =
      s\<lparr>wave := wave s @ replicate (Suc d) (pa, pb), clock := clock s + Suc d\<rparr>"
    by (simp add: replicate_append_same)
  with lt show ?case
    by (subst play_loop.simps) (simp del: replicate_Suc of_nat_Suc of_nat_add)
qed

lemma play4_closed:
  assumes "clock s + d < 2 ^ 32" "q < 2 ^ 32"
  shows "play4 p (int d) (int q) duty s =
     s\<lparr>wave := wave s @ replicate d (play_pa p duty, play_pb p duty), clock := clock s + d + q\<rparr>"
proof -
  have e: "millis s + word_of_int (int d) = of_nat (clock s + d)"
    by (simp add: millis_def)
  have u: "unat (of_nat q :: 32 word) = q"
    using assms(2) by (simp add: unat_of_nat take_bit_nat_eq_self)
  show ?thesis
    unfolding play4_def Let_def e
    by (simp add: play_loop_closed [OF assms(1)] delay_def u del: of_nat_add)
qed

lemma play2_closed:
  assumes "clock s + d < 2 ^ 32"
  shows "play2 p (int d) s =
     s\<lparr>wave := wave s @ replicate d (play_pa p DUTY, play_pb p DUTY), clock := clock s + d\<rparr>"
  using play4_closed [OF assms, of 0 p DUTY] by (simp add: play2_def)

lemma play3_closed:
  assumes "clock s + d < 2 ^ 32" "q < 2 ^ 32"
  shows "play3 p (int d) (int q) s =
     s\<lparr>wave := wave s @ replicate d (play_pa p DUTY, play_pb p DUTY), clock := clock s + d + q\<rparr>"
  using play4_closed [OF assms, of p DUTY] by (simp add: play3_def)

lemma poll_miss:
  "clock s + n < 2 ^ 32 \<Longrightarrow> \<forall>t\<in>{clock s..<clock s + n}. \<not> activation_level s t \<Longrightarrow>
   readActivationPinBoolean_loop p d (of_nat (clock s + n)) s = (False, s\<lparr>clock := clock s + n\<rparr>)"
proof (induction n arbitrary: s)
  case 0
  then show ?case
    by (subst readActivationPinBoolean_loop.simps) (simp add: millis_def)
next
  case (Suc n)
  let ?s = "s\<lparr>clock := clock s + 1\<rparr>"
  have lt: "millis s < of_nat (clock s + Suc n)"
    unfolding millis_def using Suc.prems by (subst millis_less_iff) simp_all
  have low: "\<not> digitalRead_activation s"
    using Suc.prems by (simp add: digitalRead_activation_def)
  have "readActivationPinBoolean_loop p d (of_nat (clock ?s + n)) ?s = (False, ?s\<lparr>clock := clock ?s + n\<rparr>)"
    using Suc.prems by (intro Suc.IH) simp_all
  then have "readActivationPinBoolean_loop p d (of_nat (clock s + Suc n)) ?s = (False, s\<lparr>clock := clock s + Suc n\<rparr>)"
    by simp
  with lt low show ?case
    by (subst readActivationPinBoolean_loop.simps) (simp del: of_nat_Suc of_nat_add)
qed

lemma poll_hit:
  "clock s + n < e \<Longrightarrow> e < 2 ^ 32 \<Longrightarrow> \<forall>t\<in>{clock s..<clock s + n}. \<not> activation_level s t \<Longrightarrow>
   activation_level s (clock s + n) \<Longrightarrow>
   readActivationPinBoolean_loop p d (of_nat e) s = (True, play2 p d (s\<lparr>clock := clock s + n\<rparr>))"
proof (induction n arbitrary: s)
  case 0
  have lt: "millis s < of_nat e"
    unfolding millis_def using 0 by (subst millis_less_iff) simp_all
  have "digitalRead_activation s"
    using 0 by (simp add: digitalRead_activation_def)
  with lt show ?case
    by (subst readActivationPinBoolean_loop.simps) simp
next
  case (Suc n)
  let ?s = "s\<lparr>clock := clock s + 1\<rparr>"
  have lt: "millis s < of_nat e"
    unfolding millis_def using Suc.prems by (subst millis_less_iff) simp_all
  have low: "\<not> digitalRead_activation s"
    using Suc.prems by (simp add: digitalRead_activation_def)
  have "readActivationPinBoolean_loop p d (of_nat e) ?s = (True, play2 p d (?s\<lparr>clock := clock ?s + n\<rparr>))"
    using Suc.prems by (intro Suc.IH) simp_all
  then have "readActivationPinBoolean_loop p d (of_nat e) ?s = (True, play2 p d (s\<lparr>clock := clock s + Suc n\<rparr>))"
    by simp
  with lt low show ?case
    by (subst readActivationPinBoolean_loop.simps) simp
qed

lemma wait_release_closed:
  "\<forall>i<j. activation_level s (clock s + 10 * i) \<Longrightarrow> \<not> activation_level s (clock s + 10 * j) \<Longrightarrow>
   wait_release s = Some (s\<lparr>clock := clock s + 10 * j\<rparr>)"
proof (induction j arbitrary: s)
  case 0
  then show ?case
    by (subst wait_release.simps) (simp add: digitalRead_activation_def)
next
  case (Suc j)
  let ?s = "delay 10 s"
  have hi: "digitalRead_activation s"
    using Suc.prems(1) [rule_format, of 0] by (simp add: digitalRead_activation_def)
  have "wait_release ?s = Some (?s\<lparr>clock := clock ?s + 10 * j\<rparr>)"
  proof (rule Suc.IH)
    show "\<forall>i<j. activation_level ?s (clock ?s + 10 * i)"
    proof (intro allI impI)
      fix i assume "i < j"
      then have "Suc i < Suc j" by simp
      with Suc.prems(1) have "activation_level s (clock s + 10 * Suc i)"
        by blast
      then show "activation_level ?s (clock ?s + 10 * i)"
        by (simp add: delay_def add.assoc)
    qed
    show "\<not> activation_level ?s (clock ?s + 10 * j)"
      using Suc.prems(2) by (simp add: delay_def add.assoc)
  qed
  then have "wait_release ?s = Some (s\<lparr>clock := clock s + 10 * Suc j\<rparr>)"
    by (simp add: delay_def)
  with hi show ?case
    by (subst wait_release.simps) simp
qed

section \<open>Counting taps\<close>

lemma ceil10: "x \<le> 10 * ((x + 9) div 10)" for x :: nat
proof -
  have "(x + 9) div 10 * 10 + (x + 9) mod 10 = x + 9"
    by (rule div_mult_mod_eq)
  moreover have "(x + 9) mod 10 < 10"
    by simp
  ultimately show ?thesis by linarith
qed

lemma ceil10_less: "i < (x + 9) div 10 \<Longrightarrow> 10 * i < x" for x :: nat
proof -
  assume "i < (x + 9) div 10"
  moreover have "(x + 9) div 10 * 10 + (x + 9) mod 10 = x + 9"
    by (rule div_mult_mod_eq)
  ultimately show ?thesis by linarith
qed

lemma release_time_ge: "b \<le> release_time a b" "a + 200 \<le> release_time a b"
  using ceil10 [of "b - (a + 200)"] by (simp_all add: release_time_def)

lemma release_samples_high:
  "i < (b - (a + 200) + 9) div 10 \<Longrightarrow> a + 200 + 10 * i < (b::nat)"
  using ceil10_less [of i "b - (a + 200)"] by simp

lemma taps_ok_end: "taps_ok lv T r ts \<Longrightarrow> r + T < 2 ^ 32"
proof (induction ts arbitrary: r)
  case Nil
  then show ?case by simp
next
  case (Cons x ts)
  obtain a b where x: "x = (a, b)" by (cases x)
  from Cons.prems x have "ready_time a b + T < 2 ^ 32"
    by (intro Cons.IH) simp
  moreover from Cons.prems x have "r \<le> ready_time a b"
    using release_time_ge(2) [of a b] by (simp add: ready_time_def)
  ultimately show ?case by simp
qed

lemma byte_of_s16: "(word_of_int (s16 x) :: 8 word) = word_of_int x"
proof -
  have a: "((x + 32768) mod 65536 - 32768) mod 256 = ((x + 32768) mod 65536 mod 256 - 32768 mod 256) mod 256"
    by (rule mod_diff_eq [symmetric])
  have b: "(x + 32768) mod 65536 mod 256 = (x + 32768) mod 256"
    by (rule mod_mod_cancel) simp
  have c: "(x + 32768) mod 256 = x mod 256"
    using mod_mult_self2 [of x 256 128] by simp
  have "take_bit 8 (s16 x) = take_bit 8 x"
    unfolding take_bit_eq_mod s16_def using a b c by simp
  then show ?thesis
    unfolding word_of_int_eq_iff by simp
qed

lemma count_taps:
  "taps_ok (activation_level s) T (clock s) ts \<Longrightarrow>
   \<exists>c' w. readActivationPinByte_loop p (int T) c s
            = Some (c', s\<lparr>wave := w, clock := stage_end T (clock s) ts\<rparr>)
        \<and> (word_of_int c' :: 8 word) = word_of_int c + of_nat (length ts)"
proof (induction ts arbitrary: s c)
  case Nil
  then have "readActivationPinBoolean3 p 100 (int T) s = (False, s\<lparr>clock := clock s + T\<rparr>)"
    using poll_miss [of s T p 100] by (simp add: readActivationPinBoolean3_def millis_def)
  then have "readActivationPinByte_loop p (int T) c s = Some (c, s\<lparr>wave := wave s, clock := clock s + T\<rparr>)"
    by (subst readActivationPinByte_loop.simps) simp
  then show ?case
    by (intro exI [of _ c] exI [of _ "wave s"]) simp
next
  case (Cons x ts)
  obtain a b where x: "x = (a, b)" by (cases x)
  let ?lv = "activation_level s"
  let ?r = "clock s"
  from Cons.prems x have
    ra: "?r \<le> a" and aT: "a < ?r + T" and ab: "a < b" and
    low1: "\<forall>t\<in>{?r..<a}. \<not> ?lv t" and high: "\<forall>t\<in>{a..<b}. ?lv t" and
    low2: "\<forall>t\<in>{b..<ready_time a b}. \<not> ?lv t" and
    rest: "taps_ok ?lv T (ready_time a b) ts"
    by simp_all
  have endT: "?r + T < 2 ^ 32"
    using Cons.prems by (rule taps_ok_end)
  have rdy: "ready_time a b + T < 2 ^ 32"
    using rest by (rule taps_ok_end)
  have rel: "b \<le> release_time a b" "a + 200 \<le> release_time a b"
    by (rule release_time_ge)+
  \<comment> \<open>the tap is seen at time a and confirmed by a tone of 100 ms\<close>
  have a_eq: "?r + (a - ?r) = a" using ra by simp
  have "readActivationPinBoolean_loop p 100 (of_nat (?r + T)) s
          = (True, play2 p 100 (s\<lparr>clock := ?r + (a - ?r)\<rparr>))"
    using aT endT low1 high ab by (intro poll_hit) (simp_all add: a_eq)
  then have hit: "readActivationPinBoolean3 p 100 (int T) s = (True, play2 p 100 (s\<lparr>clock := a\<rparr>))"
    by (simp add: readActivationPinBoolean3_def millis_def a_eq)
  let ?pp = "(play_pa p DUTY, play_pb p DUTY)"
  have a100: "clock (s\<lparr>clock := a\<rparr>) + 100 < 2 ^ 32"
    using rdy rel by (simp add: ready_time_def)
  have tone: "play2 p 100 (s\<lparr>clock := a\<rparr>) = s\<lparr>wave := wave s @ replicate 100 ?pp, clock := a + 100\<rparr>"
    using play2_closed [OF a100, of p] by simp
  \<comment> \<open>the release loop samples every 10 ms from a + 200 on\<close>
  let ?s1 = "delay 100 (play2 p 100 (s\<lparr>clock := a\<rparr>))"
  let ?j = "(b - (a + 200) + 9) div 10"
  have s1: "?s1 = s\<lparr>wave := wave s @ replicate 100 ?pp, clock := a + 200\<rparr>"
    by (simp add: tone delay_def)
  have "wait_release ?s1 = Some (?s1\<lparr>clock := clock ?s1 + 10 * ?j\<rparr>)"
  proof (rule wait_release_closed)
    show "\<forall>i<?j. activation_level ?s1 (clock ?s1 + 10 * i)"
    proof (intro allI impI)
      fix i assume "i < ?j"
      then have "a + 200 + 10 * i < b" by (rule release_samples_high)
      with high show "activation_level ?s1 (clock ?s1 + 10 * i)"
        by (simp add: s1)
    qed
    show "\<not> activation_level ?s1 (clock ?s1 + 10 * ?j)"
      using low2 rel(1) by (simp add: s1 ready_time_def release_time_def)
  qed
  then have rls: "wait_release ?s1 = Some (s\<lparr>wave := wave s @ replicate 100 ?pp, clock := release_time a b\<rparr>)"
    by (simp add: s1 release_time_def)
  let ?s2 = "s\<lparr>wave := wave s @ replicate 100 ?pp, clock := ready_time a b\<rparr>"
  have s2: "delay 100 (s\<lparr>wave := wave s @ replicate 100 ?pp, clock := release_time a b\<rparr>) = ?s2"
    by (simp add: delay_def ready_time_def)
  \<comment> \<open>the remaining taps\<close>
  have "taps_ok (activation_level ?s2) T (clock ?s2) ts"
    using rest by simp
  from Cons.IH [OF this, of "s16 (c + 1)"] obtain c' w where
    rec: "readActivationPinByte_loop p (int T) (s16 (c + 1)) ?s2
            = Some (c', ?s2\<lparr>wave := w, clock := stage_end T (clock ?s2) ts\<rparr>)" and
    cnt: "(word_of_int c' :: 8 word) = word_of_int (s16 (c + 1)) + of_nat (length ts)"
    by blast
  have "readActivationPinByte_loop p (int T) c s
          = Some (c', s\<lparr>wave := w, clock := stage_end T ?r (x # ts)\<rparr>)"
    by (subst readActivationPinByte_loop.simps) (simp add: hit rls s2 rec x)
  moreover have "(word_of_int c' :: 8 word) = word_of_int c + of_nat (length (x # ts))"
    using cnt by (simp add: byte_of_s16)
  ultimately show ?case by blast
qed

lemma readActivationPinByte_taps:
  assumes "taps_ok (activation_level s) T (clock s) ts"
  shows "\<exists>w. readActivationPinByte p (int T) s
            = Some (of_nat (length ts), s\<lparr>wave := w, clock := stage_end T (clock s) ts\<rparr>)"
proof -
  from count_taps [OF assms, of p 0] obtain c' w where
    "readActivationPinByte_loop p (int T) 0 s = Some (c', s\<lparr>wave := w, clock := stage_end T (clock s) ts\<rparr>)"
    "(word_of_int c' :: 8 word) = of_nat (length ts)"
    by auto
  then show ?thesis
    by (auto simp: readActivationPinByte_def)
qed

section \<open>What the configuration leaves unchanged\<close>

lemma play3_vars: "vars (play3 p d q s) = vars s"
  by (simp add: play3_def play4_vars)

lemma delay_vars: "vars (delay n s) = vars s"
  by (simp add: delay_def vars_def)

lemma poll_vars: "vars (snd (readActivationPinBoolean_loop p d e s)) = vars s"
proof (induction p d e s rule: readActivationPinBoolean_loop.induct)
  case (1 p d e s)
  show ?case
  proof (cases "millis s < e \<and> \<not> digitalRead_activation s")
    case True
    with 1 have "vars (snd (readActivationPinBoolean_loop p d e (s\<lparr>clock := clock s + 1\<rparr>))) = vars s"
      by (simp add: vars_def)
    with True show ?thesis
      by (subst readActivationPinBoolean_loop.simps) simp
  next
    case False
    then show ?thesis
      by (subst readActivationPinBoolean_loop.simps) (auto simp: play2_vars)
  qed
qed

lemma readActivationPinBoolean3_vars: "vars (snd (readActivationPinBoolean3 p d t s)) = vars s"
  by (simp add: readActivationPinBoolean3_def poll_vars)

lemma readActivationPinBoolean2_vars: "vars (snd (readActivationPinBoolean2 p t s)) = vars s"
  by (simp add: readActivationPinBoolean2_def readActivationPinBoolean3_vars)

lemma wait_release_vars:
  assumes "wait_release s = Some s'"
  shows "vars s' = vars s"
proof (rule wait_release.raw_induct [where P = "\<lambda>s s'. vars s' = vars s", OF _ assms], goal_cases)
  case (1 f s s')
  show ?case
  proof (cases "digitalRead_activation s")
    case True
    with 1(2) have "f (delay 10 s) = Some s'" by simp
    from 1(1) [OF this] show ?thesis by (simp add: delay_vars)
  next
    case False
    with 1(2) show ?thesis by simp
  qed
qed

lemma readActivationPinByte_loop_vars:
  assumes "readActivationPinByte_loop p t c s = Some y"
  shows "vars (snd y) = vars s"
proof (rule readActivationPinByte_loop.raw_induct
    [where P = "\<lambda>p t c s y. vars (snd y) = vars s", OF _ assms], goal_cases)
  case (1 f p t c s y)
  let ?r = "readActivationPinBoolean3 p 100 t s"
  have r: "vars (snd ?r) = vars s" by (rule readActivationPinBoolean3_vars)
  show ?case
  proof (cases "fst ?r")
    case True
    with 1(2) obtain s2 where w: "wait_release (delay 100 (snd ?r)) = Some s2"
      and f: "f p t (s16 (c + 1)) (delay 100 s2) = Some y"
      by (auto simp: Let_def bind_eq_Some_conv)
    from wait_release_vars [OF w] r have "vars s2 = vars s"
      by (simp add: delay_vars)
    with 1(1) [OF f] show ?thesis
      by (simp add: delay_vars)
  next
    case False
    with 1(2) r show ?thesis
      by (auto simp: Let_def)
  qed
qed

lemma readActivationPinByte_vars:
  "readActivationPinByte p t s = Some (b, s') \<Longrightarrow> vars s' = vars s"
  using readActivationPinByte_loop_vars [of p t 0 s]
  by (fastforce simp: readActivationPinByte_def)

lemma beeps_vars: "vars (beeps x n s) = vars s"
proof (induction x n s rule: beeps.induct)
  case (1 x n s)
  show ?case
  proof (cases "x < n")
    case True
    with 1 show ?thesis by (subst beeps.simps) (simp add: play3_vars)
  next
    case False
    then show ?thesis by (subst beeps.simps) simp
  qed
qed

lemma pins_to_input_vars: "vars (pins_to_input x s) = vars s"
proof (induction x s rule: pins_to_input.induct)
  case (1 x s)
  show ?case
  proof (cases "x \<le> 4")
    case True
    with 1 show ?thesis
      by (subst pins_to_input.simps) (simp add: vars_def digitalWrite_def pinMode_def)
  next
    case False
    then show ?thesis by (subst pins_to_input.simps) simp
  qed
qed

text \<open>The two outcomes of the configuration, on the variables.\<close>

lemma readConfiguration_cases:
  assumes "readConfiguration s0 = Some s"
  shows "(\<exists>days others tm.
            MIN_COUNTER_TRIGGER s =
              s16 ((if tm then TEST_MIN_COUNTER_TRIGGER else MIN_COUNTER_TRIGGER s0) * (uint (others :: 8 word) + 1)) \<and>
            MAX_COUNTER_TRIGGER s =
              s16 ((if tm then TEST_MAX_COUNTER_TRIGGER else MAX_COUNTER_TRIGGER s0) * (uint others + 1)) \<and>
            INITIAL_COUNTER_TRIGGER s =
              s32 ((if tm then TEST_INITIAL_COUNTER_TRIGGER else INITIAL_COUNTER_TRIGGER s0)
                   + s32 (DAY * uint (days :: 8 word))) \<and>
            WATCHDOG_PARAM s = (if tm then TEST_WATCHDOG_PARAM else WATCHDOG_PARAM s0) \<and>
            device_count s = uint others + 1)
       \<or> (MIN_COUNTER_TRIGGER s = 0 \<and> MAX_COUNTER_TRIGGER s = 0 \<and> INITIAL_COUNTER_TRIGGER s = 0 \<and>
          WATCHDOG_PARAM s = TEST_WATCHDOG_PARAM \<and> device_count s = device_count s0)"
proof -
  let ?s1 = "play2 450 ON_MICROS s0"
  obtain active s2 where a: "readActivationPinBoolean2 400 5000 ?s1 = (active, s2)"
    by (cases "readActivationPinBoolean2 400 5000 ?s1")
  have v2: "vars s2 = vars s0"
    using readActivationPinBoolean2_vars [of 400 5000 ?s1] a by (simp add: play2_vars)
  show ?thesis
  proof (cases active)
    case False
    with assms a have "vars s = vars (s2\<lparr>INITIAL_COUNTER_TRIGGER := 0, MIN_COUNTER_TRIGGER := 0,
        MAX_COUNTER_TRIGGER := 0, WATCHDOG_PARAM := TEST_WATCHDOG_PARAM\<rparr>)"
      by (auto simp: readConfiguration_def Let_def pins_to_input_vars)
         (simp add: vars_def vars_eqD [OF play2_vars] vars_eqD [OF delay_vars])
    with v2 show ?thesis
      by (simp add: vars_def)
  next
    case True
    with assms a obtain days s3 where
      d: "readActivationPinByte 400 1000 s2 = Some (days, s3)"
      by (auto simp: readConfiguration_def Let_def bind_eq_Some_conv)
    let ?s4 = "beeps 0 (uint days) s3"
    let ?s5 = "if uint days = 0 then play3 500 200 200 ?s4 else ?s4"
    from assms a True d obtain others s6 where
      o: "readActivationPinByte 400 1000 ?s5 = Some (others, s6)"
      by (auto simp: readConfiguration_def Let_def bind_eq_Some_conv split: if_splits)
    have v3: "vars s3 = vars s0"
      using readActivationPinByte_vars [OF d] v2 by simp
    have v5: "vars ?s5 = vars s0"
      using v3 by (simp add: beeps_vars play3_vars)
    have v6: "vars s6 = vars s0"
      using readActivationPinByte_vars [OF o] v5 by simp
    let ?s7 = "s6\<lparr>device_count := s16 (uint others + 1)\<rparr>"
    let ?s8 = "beeps 0 (device_count ?s7) ?s7"
    obtain tm s9 where t: "readActivationPinBoolean2 350 1000 ?s8 = (tm, s9)"
      by (cases "readActivationPinBoolean2 350 1000 ?s8")
    have v9: "vars s9 = vars ?s7"
      using readActivationPinBoolean2_vars [of 350 1000 ?s8] t by (simp add: beeps_vars)
    have dc: "s16 (uint others + 1) = uint others + 1"
    proof (rule s16_id)
      have "uint others < 256" using uint_bounded [of others] by simp
      then show "c_int (uint others + 1)" by (simp add: c_int_def)
    qed
    let ?s10 = "if \<not> tm then play2 450 ON_MICROS s9
                else s9\<lparr>MIN_COUNTER_TRIGGER := TEST_MIN_COUNTER_TRIGGER,
                        MAX_COUNTER_TRIGGER := TEST_MAX_COUNTER_TRIGGER,
                        INITIAL_COUNTER_TRIGGER := TEST_INITIAL_COUNTER_TRIGGER,
                        WATCHDOG_PARAM := TEST_WATCHDOG_PARAM\<rparr>"
    have v10: "vars ?s10 = vars (if tm then ?s7\<lparr>MIN_COUNTER_TRIGGER := TEST_MIN_COUNTER_TRIGGER,
                        MAX_COUNTER_TRIGGER := TEST_MAX_COUNTER_TRIGGER,
                        INITIAL_COUNTER_TRIGGER := TEST_INITIAL_COUNTER_TRIGGER,
                        WATCHDOG_PARAM := TEST_WATCHDOG_PARAM\<rparr> else ?s7)"
      using v9 by (simp add: play2_vars) (simp add: vars_def)
    let ?s11 = "delay 100 ?s10"
    have fin: "s = pins_to_input 0 (?s11\<lparr>MIN_COUNTER_TRIGGER := s16 (MIN_COUNTER_TRIGGER ?s11 * device_count ?s11),
        MAX_COUNTER_TRIGGER := s16 (MAX_COUNTER_TRIGGER ?s11 * device_count ?s11),
        INITIAL_COUNTER_TRIGGER := s32 (INITIAL_COUNTER_TRIGGER ?s11 + s32 (DAY * uint days))\<rparr>)"
      using assms a True d o t by (simp add: readConfiguration_def Let_def)
    have v11: "vars ?s11 = vars (if tm then ?s7\<lparr>MIN_COUNTER_TRIGGER := TEST_MIN_COUNTER_TRIGGER,
                        MAX_COUNTER_TRIGGER := TEST_MAX_COUNTER_TRIGGER,
                        INITIAL_COUNTER_TRIGGER := TEST_INITIAL_COUNTER_TRIGGER,
                        WATCHDOG_PARAM := TEST_WATCHDOG_PARAM\<rparr> else ?s7)"
      using v10 by (simp only: delay_vars)
    have "MIN_COUNTER_TRIGGER s =
              s16 ((if tm then TEST_MIN_COUNTER_TRIGGER else MIN_COUNTER_TRIGGER s0) * (uint others + 1)) \<and>
            MAX_COUNTER_TRIGGER s =
              s16 ((if tm then TEST_MAX_COUNTER_TRIGGER else MAX_COUNTER_TRIGGER s0) * (uint others + 1)) \<and>
            INITIAL_COUNTER_TRIGGER s =
              s32 ((if tm then TEST_INITIAL_COUNTER_TRIGGER else INITIAL_COUNTER_TRIGGER s0)
                   + s32 (DAY * uint days)) \<and>
            WATCHDOG_PARAM s = (if tm then TEST_WATCHDOG_PARAM else WATCHDOG_PARAM s0) \<and>
            device_count s = uint others + 1"
      using vars_eqD [OF v11] vars_eqD [OF v6] vars_eqD [OF pins_to_input_vars]
      unfolding fin by (simp add: dc split: if_splits)
    then show ?thesis by blast
  qed
qed

section \<open>Elapsed time\<close>

lemma elapsedI: "elapsed s T (s\<lparr>wave := w, clock := T\<rparr>)"
  by (simp add: elapsed_def)

lemma elapsed_refl: "elapsed s (clock s) s"
  by (simp add: elapsed_def)

lemma elapsed_trans:
  assumes "elapsed s T s'" "elapsed s' T' s''"
  shows "elapsed s T' s''"
proof -
  define w where "w = wave s'"
  define w' where "w' = wave s''"
  from assms(1) have e1: "s' = s\<lparr>wave := w, clock := T\<rparr>"
    by (simp add: elapsed_def w_def)
  from assms(2) have e2: "s'' = s'\<lparr>wave := w', clock := T'\<rparr>"
    by (simp add: elapsed_def w'_def)
  have "s'' = s\<lparr>wave := w', clock := T'\<rparr>"
    unfolding e2 e1 by simp
  then show ?thesis
    by (simp add: elapsed_def)
qed

lemma elapsedD:
  assumes "elapsed s T s'"
  shows "clock s' = T" and "activation_level s' = activation_level s" and "vars s' = vars s"
proof -
  define w where "w = wave s'"
  from assms have e: "s' = s\<lparr>wave := w, clock := T\<rparr>"
    by (simp add: elapsed_def w_def)
  show "clock s' = T" unfolding e by simp
  show "activation_level s' = activation_level s" unfolding e by simp
  show "vars s' = vars s" unfolding e by (simp add: vars_def)
qed

lemma play2_elapsed:
  assumes "clock s + d < 2 ^ 32"
  shows "elapsed s (clock s + d) (play2 p (int d) s)"
  unfolding play2_closed [OF assms] by (rule elapsedI)

lemma play3_elapsed:
  assumes "clock s + d < 2 ^ 32" "q < 2 ^ 32"
  shows "elapsed s (clock s + d + q) (play3 p (int d) (int q) s)"
  unfolding play3_closed [OF assms] by (rule elapsedI)

lemma delay_elapsed:
  assumes "n < 2 ^ 32"
  shows "elapsed s (clock s + n) (delay (of_nat n) s)"
proof -
  have "unat (of_nat n :: 32 word) = n"
    using assms by (simp add: unat_of_nat take_bit_nat_eq_self)
  then show ?thesis
    by (simp add: delay_def elapsed_def)
qed

lemma beeps_elapsed:
  "x \<le> n \<Longrightarrow> clock s + 400 * nat (n - x) < 2 ^ 32 \<Longrightarrow>
   elapsed s (clock s + 400 * nat (n - x)) (beeps x n s)"
proof (induction "nat (n - x)" arbitrary: x s)
  case 0
  then have "\<not> x < n" by simp
  then have "beeps x n s = s" by (subst beeps.simps) simp
  with 0 show ?case by (simp add: elapsed_refl)
next
  case (Suc k)
  then have lt: "x < n" and k: "k = nat (n - (x + 1))" by simp_all
  have n1: "nat (n - x) = Suc (nat (n - (x + 1)))" using lt by simp
  let ?s = "play3 400 200 200 s"
  have c: "clock s + 200 < 2 ^ 32" using Suc.prems(2) n1 by simp
  have e1: "elapsed s (clock s + 400) ?s"
    using play3_elapsed [OF c, of 200 400] by (simp add: add.commute)
  then have cs: "clock ?s = clock s + 400" by (rule elapsedD)
  have t: "clock ?s + 400 * nat (n - (x + 1)) = clock s + 400 * nat (n - x)"
    using cs n1 by simp
  have "elapsed ?s (clock ?s + 400 * nat (n - (x + 1))) (beeps (x + 1) n ?s)"
    using lt Suc.prems(2) n1 cs by (intro Suc.hyps(1) k) simp_all
  then have "elapsed ?s (clock s + 400 * nat (n - x)) (beeps (x + 1) n ?s)"
    unfolding t .
  with e1 have "elapsed s (clock s + 400 * nat (n - x)) (beeps (x + 1) n ?s)"
    by (rule elapsed_trans)
  with lt show ?case
    by (subst beeps.simps) simp
qed

lemma poll_none:
  assumes "clock s + T < 2 ^ 32" "\<forall>t\<in>{clock s..<clock s + T}. \<not> activation_level s t"
  shows "fst (readActivationPinBoolean3 p d (int T) s) = False"
    and "elapsed s (clock s + T) (snd (readActivationPinBoolean3 p d (int T) s))"
proof -
  have "readActivationPinBoolean3 p d (int T) s = (False, s\<lparr>clock := clock s + T\<rparr>)"
    using poll_miss [OF assms, of p d] by (simp add: readActivationPinBoolean3_def millis_def)
  then show "fst (readActivationPinBoolean3 p d (int T) s) = False"
    and "elapsed s (clock s + T) (snd (readActivationPinBoolean3 p d (int T) s))"
    by (simp_all add: elapsed_def)
qed

lemma poll_tap:
  assumes "clock s \<le> a" "a < clock s + T" "clock s + T < 2 ^ 32" "a + d < 2 ^ 32"
    and "\<forall>t\<in>{clock s..<a}. \<not> activation_level s t" "activation_level s a"
  shows "fst (readActivationPinBoolean3 p (int d) (int T) s) = True"
    and "elapsed s (a + d) (snd (readActivationPinBoolean3 p (int d) (int T) s))"
proof -
  have a_eq: "clock s + (a - clock s) = a" using assms(1) by simp
  have "readActivationPinBoolean_loop p (int d) (of_nat (clock s + T)) s
          = (True, play2 p (int d) (s\<lparr>clock := clock s + (a - clock s)\<rparr>))"
    using assms by (intro poll_hit) (simp_all add: a_eq)
  then have r: "readActivationPinBoolean3 p (int d) (int T) s = (True, play2 p (int d) (s\<lparr>clock := a\<rparr>))"
    by (simp add: readActivationPinBoolean3_def millis_def a_eq)
  have "elapsed (s\<lparr>clock := a\<rparr>) (clock (s\<lparr>clock := a\<rparr>) + d) (play2 p (int d) (s\<lparr>clock := a\<rparr>))"
    using assms(4) by (intro play2_elapsed) simp
  moreover have "elapsed s a (s\<lparr>clock := a\<rparr>)"
    by (simp add: elapsed_def)
  ultimately have "elapsed s (a + d) (play2 p (int d) (s\<lparr>clock := a\<rparr>))"
    using elapsed_trans by fastforce
  with r show "fst (readActivationPinBoolean3 p (int d) (int T) s) = True"
    and "elapsed s (a + d) (snd (readActivationPinBoolean3 p (int d) (int T) s))"
    by simp_all
qed

lemma readActivationPinByte_elapsed:
  assumes "taps_ok (activation_level s) T (clock s) ts"
  shows "\<exists>s'. readActivationPinByte p (int T) s = Some (of_nat (length ts), s')
            \<and> elapsed s (stage_end T (clock s) ts) s'"
  using readActivationPinByte_taps [OF assms, of p] elapsedI by blast

section \<open>The configuration of a run\<close>

lemma uint_byte_of_nat: "uint (of_nat n :: 8 word) = int (n mod 256)"
  by (simp add: uint_nat unat_of_nat)

lemma readConfiguration_not_activated:
  assumes c0: "clock s0 = 0" and quiet: "\<forall>t\<in>{300..<5300}. \<not> activation_level s0 t"
  shows "\<exists>s. readConfiguration s0 = Some s \<and>
           vars s = vars (s0\<lparr>INITIAL_COUNTER_TRIGGER := 0, MIN_COUNTER_TRIGGER := 0,
                              MAX_COUNTER_TRIGGER := 0, WATCHDOG_PARAM := TEST_WATCHDOG_PARAM\<rparr>)"
proof -
  let ?s1 = "play2 450 ON_MICROS s0"
  have e1: "elapsed s0 300 ?s1"
    using play2_elapsed [of s0 300 450] c0 by (simp add: ON_MICROS_def)
  have c1: "clock ?s1 = 300" and l1: "activation_level ?s1 = activation_level s0"
    using elapsedD [OF e1] by simp_all
  let ?r = "readActivationPinBoolean2 400 5000 ?s1"
  have "fst (readActivationPinBoolean3 400 ON_MICROS (int 5000) ?s1) = False"
    using quiet by (intro poll_none) (simp_all add: c1 l1)
  then have f: "fst ?r = False"
    by (simp add: readActivationPinBoolean2_def)
  have v: "vars (snd ?r) = vars s0"
    by (simp add: readActivationPinBoolean2_vars play2_vars)
  let ?t = "delay 3000 (play2 550 (ON_MICROS * 3) (play2 500 ON_MICROS (snd ?r)))"
  let ?s = "pins_to_input 0 (?t\<lparr>INITIAL_COUNTER_TRIGGER := 0, MIN_COUNTER_TRIGGER := 0,
                              MAX_COUNTER_TRIGGER := 0, WATCHDOG_PARAM := TEST_WATCHDOG_PARAM\<rparr>)"
  have "readConfiguration s0 = Some ?s"
    using f by (simp add: readConfiguration_def Let_def case_prod_beta)
  moreover have "vars ?t = vars s0"
    using v by (simp add: delay_vars play2_vars)
  then have "vars ?s = vars (s0\<lparr>INITIAL_COUNTER_TRIGGER := 0, MIN_COUNTER_TRIGGER := 0,
                              MAX_COUNTER_TRIGGER := 0, WATCHDOG_PARAM := TEST_WATCHDOG_PARAM\<rparr>)"
    by (simp add: pins_to_input_vars) (simp add: vars_def)
  ultimately show ?thesis by blast
qed

lemma readConfiguration_activated:
  assumes c0: "clock s0 = 0" and run: "activated_run (activation_level s0) a ds ks"
  shows "\<exists>s. readConfiguration s0 = Some s \<and>
           vars s = vars (s0\<lparr>device_count := int (length ks mod 256) + 1,
             MIN_COUNTER_TRIGGER := s16 (MIN_COUNTER_TRIGGER s0 * (int (length ks mod 256) + 1)),
             MAX_COUNTER_TRIGGER := s16 (MAX_COUNTER_TRIGGER s0 * (int (length ks mod 256) + 1)),
             INITIAL_COUNTER_TRIGGER :=
               s32 (INITIAL_COUNTER_TRIGGER s0 + s32 (DAY * int (length ds mod 256)))\<rparr>)"
proof -
  let ?lv = "activation_level s0"
  let ?d = "length ds mod 256" and ?k = "length ks mod 256"
  from run have a1: "300 \<le> a" and a2: "a < 5300" and low0: "\<forall>t\<in>{300..<a}. \<not> ?lv t"
    and hi0: "?lv a" and tds: "taps_ok ?lv 1000 (a + 300) ds"
    and tks: "taps_ok ?lv 1000 (others_start a ds) ks"
    and ttest: "taps_ok ?lv 1000 (test_start a ds ks) []"
    by (simp_all add: activated_run_def)
  \<comment> \<open>the power-on beep\<close>
  let ?s1 = "play2 450 ON_MICROS s0"
  have e1: "elapsed s0 300 ?s1"
    using play2_elapsed [of s0 300 450] c0 by (simp add: ON_MICROS_def)
  have c1: "clock ?s1 = 300" and l1: "activation_level ?s1 = ?lv"
    using elapsedD [OF e1] by simp_all
  \<comment> \<open>the activation tap\<close>
  let ?r = "readActivationPinBoolean2 400 5000 ?s1"
  have b1: "a + 300 + 1000 < 2 ^ 32" using tds by (rule taps_ok_end)
  have p: "fst (readActivationPinBoolean3 400 (int 300) (int 5000) ?s1) = True"
      "elapsed ?s1 (a + 300) (snd (readActivationPinBoolean3 400 (int 300) (int 5000) ?s1))"
    using a1 a2 low0 hi0 b1 by (rule_tac [!] poll_tap) (simp_all add: c1 l1)
  then have f2: "fst ?r = True" and e2': "elapsed ?s1 (a + 300) (snd ?r)"
    by (simp_all add: readActivationPinBoolean2_def ON_MICROS_def)
  let ?s2 = "snd ?r"
  have e2: "elapsed s0 (a + 300) ?s2" using e1 e2' by (rule elapsed_trans)
  have c2: "clock ?s2 = a + 300" and l2: "activation_level ?s2 = ?lv"
    using elapsedD [OF e2] by simp_all
  \<comment> \<open>the days\<close>
  have "taps_ok (activation_level ?s2) 1000 (clock ?s2) ds"
    using tds by (simp add: c2 l2)
  from readActivationPinByte_elapsed [OF this, of 400] obtain s3 where
    r3: "readActivationPinByte 400 1000 ?s2 = Some (of_nat (length ds), s3)" and
    e3': "elapsed ?s2 (stage_end 1000 (a + 300) ds) s3"
    by (auto simp: c2)
  have e3: "elapsed s0 (stage_end 1000 (a + 300) ds) s3" using e2 e3' by (rule elapsed_trans)
  have c3: "clock s3 = stage_end 1000 (a + 300) ds" using elapsedD [OF e3] by simp
  have days: "uint (of_nat (length ds) :: 8 word) = int ?d" by (rule uint_byte_of_nat)
  have b2: "others_start a ds + 1000 < 2 ^ 32" using tks by (rule taps_ok_end)
  let ?s4 = "beeps 0 (int ?d) s3"
  have "elapsed s3 (clock s3 + 400 * nat (int ?d - 0)) ?s4"
    using b2 by (intro beeps_elapsed) (auto simp: c3 others_start_def split: if_splits)
  then have e4': "elapsed s3 (stage_end 1000 (a + 300) ds + 400 * ?d) ?s4"
    by (simp add: c3)
  have c4: "clock ?s4 = stage_end 1000 (a + 300) ds + 400 * ?d" using elapsedD [OF e4'] by simp
  let ?s5 = "if ?d = 0 then play3 500 200 200 ?s4 else ?s4"
  have e5': "elapsed ?s4 (others_start a ds) ?s5"
  proof -
    have os: "others_start a ds = clock ?s4 + (if ?d = 0 then 400 else 0)"
      by (simp add: c4 others_start_def)
    have cb: "clock ?s4 + 200 < 2 ^ 32"
      using b2 os by simp
    have z: "elapsed ?s4 (clock ?s4 + 200 + 200) (play3 500 (int 200) (int 200) ?s4)"
      using cb by (intro play3_elapsed) simp_all
    have n: "elapsed ?s4 (clock ?s4) ?s4" by (rule elapsed_refl)
    show ?thesis
      unfolding os using z n by (cases "?d = 0") (simp_all add: add.commute)
  qed
  have e5: "elapsed s0 (others_start a ds) ?s5"
    using e3 e4' e5' elapsed_trans by blast
  have c5: "clock ?s5 = others_start a ds" and l5: "activation_level ?s5 = ?lv"
    using elapsedD [OF e5] by simp_all
  \<comment> \<open>the other devices\<close>
  have "taps_ok (activation_level ?s5) 1000 (clock ?s5) ks"
    using tks by (simp only: c5 l5)
  from readActivationPinByte_elapsed [OF this, of 400] obtain s6 where
    r6: "readActivationPinByte 400 1000 ?s5 = Some (of_nat (length ks), s6)" and
    e6': "elapsed ?s5 (stage_end 1000 (others_start a ds) ks) s6"
    by (auto simp only: c5 of_nat_numeral)
  have e6: "elapsed s0 (stage_end 1000 (others_start a ds) ks) s6" using e5 e6' by (rule elapsed_trans)
  have others: "uint (of_nat (length ks) :: 8 word) = int ?k" by (rule uint_byte_of_nat)
  have dc: "s16 (int ?k + 1) = int ?k + 1"
    by (rule s16_id) (simp add: c_int_def)
  let ?s7 = "s6\<lparr>device_count := int ?k + 1\<rparr>"
  have c7: "clock ?s7 = stage_end 1000 (others_start a ds) ks"
    and l7: "activation_level ?s7 = ?lv"
    and v7: "vars ?s7 = vars (s0\<lparr>device_count := int ?k + 1\<rparr>)"
    using elapsedD [OF e6] by (simp_all add: vars_def)
  have b3: "test_start a ds ks + 1000 < 2 ^ 32" using ttest by simp
  let ?s8 = "beeps 0 (int ?k + 1) ?s7"
  have "elapsed ?s7 (clock ?s7 + 400 * nat (int ?k + 1 - 0)) ?s8"
    using b3 by (intro beeps_elapsed) (simp_all add: c7 test_start_def nat_add_distrib)
  then have e8: "elapsed ?s7 (test_start a ds ks) ?s8"
    by (simp add: c7 test_start_def nat_add_distrib)
  have c8: "clock ?s8 = test_start a ds ks" and l8: "activation_level ?s8 = ?lv"
    and v8: "vars ?s8 = vars (s0\<lparr>device_count := int ?k + 1\<rparr>)"
    using elapsedD [OF e8] l7 v7 by simp_all
  \<comment> \<open>no tap for the test mode\<close>
  let ?r9 = "readActivationPinBoolean2 350 1000 ?s8"
  have "fst (readActivationPinBoolean3 350 ON_MICROS (int 1000) ?s8) = False"
    using ttest by (intro poll_none) (simp_all add: c8 l8)
  then have f9: "fst ?r9 = False"
    by (simp add: readActivationPinBoolean2_def)
  have v9: "vars (snd ?r9) = vars (s0\<lparr>device_count := int ?k + 1\<rparr>)"
    using v8 by (simp add: readActivationPinBoolean2_vars)
  let ?s11 = "delay 100 (play2 450 ON_MICROS (snd ?r9))"
  have v11: "vars ?s11 = vars (s0\<lparr>device_count := int ?k + 1\<rparr>)"
    using v9 by (simp add: delay_vars play2_vars)
  let ?s = "pins_to_input 0 (?s11\<lparr>MIN_COUNTER_TRIGGER := s16 (MIN_COUNTER_TRIGGER ?s11 * device_count ?s11),
        MAX_COUNTER_TRIGGER := s16 (MAX_COUNTER_TRIGGER ?s11 * device_count ?s11),
        INITIAL_COUNTER_TRIGGER := s32 (INITIAL_COUNTER_TRIGGER ?s11 + s32 (DAY * int ?d))\<rparr>)"
  have r6a: "?d = 0 \<Longrightarrow>
      readActivationPinByte 400 1000 (play3 500 200 200 (beeps 0 0 s3)) = Some (of_nat (length ks), s6)"
    using r6 by simp
  have r6b: "?d \<noteq> 0 \<Longrightarrow>
      readActivationPinByte 400 1000 (beeps 0 (int ?d) s3) = Some (of_nat (length ks), s6)"
    using r6 by simp
  have "readConfiguration s0 = Some ?s"
    using f2 f9
    by (simp add: readConfiguration_def Let_def case_prod_beta r3 days others dc r6a r6b)
  moreover have "vars ?s = vars (s0\<lparr>device_count := int ?k + 1,
             MIN_COUNTER_TRIGGER := s16 (MIN_COUNTER_TRIGGER s0 * (int ?k + 1)),
             MAX_COUNTER_TRIGGER := s16 (MAX_COUNTER_TRIGGER s0 * (int ?k + 1)),
             INITIAL_COUNTER_TRIGGER := s32 (INITIAL_COUNTER_TRIGGER s0 + s32 (DAY * int ?d))\<rparr>)"
    using vars_eqD [OF v11] by (simp add: pins_to_input_vars) (simp add: vars_def)
  ultimately show ?thesis by blast
qed

section \<open>Trains of taps\<close>

lemma train_phase:
  fixes t0 j t :: nat
  assumes "t0 + 400 * j \<le> t" "t < t0 + 400 * (j + 1)"
  shows "(t - t0) mod 400 = t - (t0 + 400 * j)"
proof -
  let ?u = "t - (t0 + 400 * j)"
  have "t - t0 = ?u + 400 * j" using assms by simp
  moreover have "?u < 400" using assms by simp
  ultimately show ?thesis by simp
qed

lemma train_high:
  assumes "j < n" "t0 + 400 * j \<le> t" "t < t0 + 400 * j + 50"
  shows "train_level t0 n t"
proof -
  have "(t - t0) mod 400 = t - (t0 + 400 * j)"
    using assms by (intro train_phase) simp_all
  moreover have "400 * j + 400 \<le> 400 * n"
    using assms(1) by simp
  ultimately show ?thesis
    using assms by (simp add: train_level_def)
qed

lemma train_low:
  assumes "t0 + 400 * j + 50 \<le> t" "t < t0 + 400 * (j + 1)"
  shows "\<not> train_level t0 n t"
proof -
  have "(t - t0) mod 400 = t - (t0 + 400 * j)"
    using assms by (intro train_phase) simp_all
  moreover have "\<not> t - (t0 + 400 * j) < 50"
    using assms by linarith
  ultimately show ?thesis
    by (simp add: train_level_def)
qed

lemma train_before: "t < t0 \<Longrightarrow> \<not> train_level t0 n t"
  by (simp add: train_level_def)

lemma train_after: "t0 + 400 * n \<le> t \<Longrightarrow> \<not> train_level t0 n t"
  by (simp add: train_level_def)

lemma train_quiet:
  assumes "0 < i \<longrightarrow> t0 + 400 * (i - 1) + 50 \<le> r" "r \<le> t" "t < t0 + 400 * i"
  shows "\<not> train_level t0 n t"
proof (cases i)
  case 0
  with assms show ?thesis by (simp add: train_before)
next
  case (Suc j)
  with assms show ?thesis by (intro train_low [of t0 j]) simp_all
qed

lemma train_ready: "ready_time (t0 + 400 * j) (t0 + 400 * j + 50) = t0 + 400 * j + 300"
  by (simp add: ready_time_def release_time_def)

lemma train_ok:
  assumes T: "100 < T" and bound: "t0 + 400 * n + T < 2 ^ 32"
  shows "i \<le> n \<Longrightarrow> r \<le> t0 + 400 * i \<Longrightarrow> (i < n \<longrightarrow> t0 + 400 * i < r + T) \<Longrightarrow>
     (0 < i \<longrightarrow> t0 + 400 * (i - 1) + 50 \<le> r) \<Longrightarrow>
     taps_ok (train_level t0 n) T r (train_taps t0 i n)"
proof (induction "n - i" arbitrary: i r)
  case 0
  then have i: "i = n" by simp
  have "\<not> train_level t0 n t" if "r \<le> t" for t
  proof (cases "t < t0 + 400 * n")
    case True
    with 0(5) that i show ?thesis by (intro train_quiet [of i t0 r t]) simp_all
  next
    case False
    then show ?thesis by (simp add: train_after)
  qed
  moreover have "r + T < 2 ^ 32"
    using bound 0(3) i by simp
  ultimately show ?case
    by (simp add: train_taps_def i)
next
  case (Suc k)
  then have lt: "i < n" by simp
  let ?a = "t0 + 400 * i"
  have l: "train_taps t0 i n = (?a, ?a + 50) # train_taps t0 (Suc i) n"
    using lt by (simp add: train_taps_def upt_conv_Cons)
  have rest: "taps_ok (train_level t0 n) T (?a + 300) (train_taps t0 (Suc i) n)"
    using Suc.hyps(2) lt T by (intro Suc.hyps(1)) simp_all
  have low1: "\<forall>t\<in>{r..<?a}. \<not> train_level t0 n t"
  proof
    fix t assume "t \<in> {r..<?a}"
    then have "r \<le> t" "t < ?a" by simp_all
    with Suc.prems(4) show "\<not> train_level t0 n t"
      by (rule train_quiet)
  qed
  have high: "\<forall>t\<in>{?a..<?a + 50}. train_level t0 n t"
  proof
    fix t assume "t \<in> {?a..<?a + 50}"
    then have "?a \<le> t" "t < ?a + 50" by simp_all
    with lt show "train_level t0 n t"
      by (rule train_high)
  qed
  have low2: "\<forall>t\<in>{?a + 50..<?a + 300}. \<not> train_level t0 n t"
  proof
    fix t assume "t \<in> {?a + 50..<?a + 300}"
    then have "?a + 50 \<le> t" "t < t0 + 400 * (i + 1)" by simp_all
    then show "\<not> train_level t0 n t"
      by (rule train_low)
  qed
  show ?case
    using Suc.prems lt low1 high low2 rest
    by (simp add: l train_ready)
qed

lemma train_stage_end:
  "i < n \<Longrightarrow> stage_end T r (train_taps t0 i n) = t0 + 400 * (n - 1) + 300 + T"
proof (induction "n - i" arbitrary: i r)
  case 0
  then show ?case by simp
next
  case (Suc k)
  let ?a = "t0 + 400 * i"
  have l: "train_taps t0 i n = (?a, ?a + 50) # train_taps t0 (Suc i) n"
    using Suc.prems by (simp add: train_taps_def upt_conv_Cons)
  show ?case
  proof (cases "Suc i < n")
    case True
    with Suc.hyps(2) have "stage_end T (?a + 300) (train_taps t0 (Suc i) n) = t0 + 400 * (n - 1) + 300 + T"
      by (intro Suc.hyps(1)) simp_all
    then show ?thesis by (simp add: l train_ready)
  next
    case False
    with Suc.prems have n: "n = Suc i" by simp
    then show ?thesis by (simp add: l train_ready train_taps_def)
  qed
qed

lemma train_length: "length (train_taps t0 i n) = n - i"
  by (simp add: train_taps_def)

section \<open>Setup\<close>

lemma setup_watchdog_vars: "vars (setup_watchdog ii s) = vars s"
  by (simp add: setup_watchdog_def Let_def vars_def)

lemma randomSeed_vars: "vars (randomSeed x s) = vars s"
  by (simp add: randomSeed_def vars_def)

lemma setup_sketch_Some:
  assumes "setup_sketch s0 = Some s"
  shows "\<exists>c. readConfiguration (pinMode activationPin False (pinMode piezoPin True s0)) = Some c \<and>
           bounds s = bounds c \<and> WATCHDOG_PARAM s = WATCHDOG_PARAM c \<and>
           INITIAL_COUNTER_TRIGGER s = INITIAL_COUNTER_TRIGGER c \<and>
           WDTCR s = WDTCR (setup_watchdog (WATCHDOG_PARAM c) c) \<and>
           counter_trigger s =
             s32 (fst (random2 (MIN_COUNTER_TRIGGER c) (MAX_COUNTER_TRIGGER c) (randomSeed (millis c) c))
                  + INITIAL_COUNTER_TRIGGER c)"
proof -
  let ?p = "pinMode activationPin False (pinMode piezoPin True s0)"
  from assms obtain c where c: "readConfiguration ?p = Some c"
    by (auto simp: setup_sketch_def Let_def bind_eq_Some_conv)
  let ?t = "randomSeed (millis c) c"
  let ?n = "newTriggerCounter ?t"
  let ?u = "?n\<lparr>counter_trigger := s32 (counter_trigger ?n + INITIAL_COUNTER_TRIGGER ?n)\<rparr>"
  have s: "s = setup_watchdog (WATCHDOG_PARAM ?u) ?u"
    using assms c by (simp add: setup_sketch_def Let_def)
  have vt: "vars ?t = vars c" by (rule randomSeed_vars)
  have vn: "vars ?n = vars (?t\<lparr>counter_trigger :=
      fst (random2 (MIN_COUNTER_TRIGGER ?t) (MAX_COUNTER_TRIGGER ?t) ?t)\<rparr>)"
    by (rule newTriggerCounter_vars)
  have n: "MIN_COUNTER_TRIGGER ?n = MIN_COUNTER_TRIGGER c" "MAX_COUNTER_TRIGGER ?n = MAX_COUNTER_TRIGGER c"
    "device_count ?n = device_count c" "WATCHDOG_PARAM ?n = WATCHDOG_PARAM c"
    "INITIAL_COUNTER_TRIGGER ?n = INITIAL_COUNTER_TRIGGER c"
    "counter_trigger ?n = fst (random2 (MIN_COUNTER_TRIGGER c) (MAX_COUNTER_TRIGGER c) ?t)"
    using vars_eqD [OF vn] vars_eqD [OF vt] by simp_all
  have w: "WDTCR (setup_watchdog ii x) = WDTCR (setup_watchdog ii y)" for ii x y
    by (simp add: setup_watchdog_def Let_def)
  have "bounds s = bounds c \<and> WATCHDOG_PARAM s = WATCHDOG_PARAM c \<and>
           INITIAL_COUNTER_TRIGGER s = INITIAL_COUNTER_TRIGGER c \<and>
           counter_trigger s =
             s32 (fst (random2 (MIN_COUNTER_TRIGGER c) (MAX_COUNTER_TRIGGER c) ?t)
                  + INITIAL_COUNTER_TRIGGER c)"
    unfolding s using vars_eqD [OF setup_watchdog_vars, of "WATCHDOG_PARAM ?u" ?u] n
    by (simp add: bounds_def)
  moreover have "WDTCR s = WDTCR (setup_watchdog (WATCHDOG_PARAM c) c)"
    unfolding s using n(4) w [of "WATCHDOG_PARAM c" ?u c] by simp
  ultimately show ?thesis using c by blast
qed

lemma setup_sketch_total:
  assumes "readConfiguration (pinMode activationPin False (pinMode piezoPin True s0)) = Some c"
  shows "\<exists>s. setup_sketch s0 = Some s"
  using assms by (simp add: setup_sketch_def Let_def)

lemma configured_inv:
  assumes "MIN_COUNTER_TRIGGER s0 = 37" "MAX_COUNTER_TRIGGER s0 = 60" "device_count s0 = 1"
    and "readConfiguration s0 = Some s"
  shows "config_inv s"
proof -
  from readConfiguration_cases [OF assms(4)] show ?thesis
  proof (elim disjE exE conjE)
    fix days others :: "8 word" and tm :: bool
    assume m: "MIN_COUNTER_TRIGGER s =
        s16 ((if tm then TEST_MIN_COUNTER_TRIGGER else MIN_COUNTER_TRIGGER s0) * (uint others + 1))"
      and M: "MAX_COUNTER_TRIGGER s =
        s16 ((if tm then TEST_MAX_COUNTER_TRIGGER else MAX_COUNTER_TRIGGER s0) * (uint others + 1))"
      and d: "device_count s = uint others + 1"
    have o: "0 \<le> uint others" "uint others < 256"
      using uint_bounded [of others] by simp_all
    have r: "c_int (b * (uint others + 1))" if "0 \<le> b" "b \<le> 60" for b
    proof -
      have "b * (uint others + 1) \<le> 60 * 256"
        using that o by (intro mult_mono) simp_all
      moreover have "0 \<le> b * (uint others + 1)"
        using that o by simp
      ultimately show ?thesis by (simp add: c_int_def)
    qed
    have le: "a * (uint others + 1) \<le> b * (uint others + 1)" if "a \<le> b" for a b
      using that o by (intro mult_right_mono) simp_all
    show ?thesis
      using m M d o assms(1,2) r [of 37] r [of 60] r [of 2] r [of 4] le [of 37 60] le [of 2 4]
      by (simp add: config_inv_def s16_id TEST_MIN_COUNTER_TRIGGER_def TEST_MAX_COUNTER_TRIGGER_def
            c_int_def split: if_splits)
  next
    assume "MIN_COUNTER_TRIGGER s = 0" "MAX_COUNTER_TRIGGER s = 0" "device_count s = device_count s0"
    with assms(3) show ?thesis
      by (simp add: config_inv_def c_int_def)
  qed
qed

section \<open>The initial delay and the invariant\<close>

lemma play_loop_rng: "rng (play_loop e pa pb s) = rng s"
proof (induction e pa pb s rule: play_loop.induct)
  case (1 e pa pb s)
  show ?case
  proof (cases "millis s < e")
    case True
    with 1 show ?thesis by (subst play_loop.simps) (simp add: rng_def)
  next
    case False
    then show ?thesis by (subst play_loop.simps) simp
  qed
qed

lemma play2_rng: "rng (play2 p d s) = rng s"
  using play_loop_rng [of "millis s + word_of_int d" "play_pa p DUTY" "play_pb p DUTY" s]
  by (simp add: play2_def play4_def Let_def delay_def rng_def)

lemma loop_days_rng: "rng (loop_days s) = rng s"
proof -
  have "rng (play2 p d (play2 p' d' (play2 p'' d'' t))) = rng t" for p d p' d' p'' d'' t
    by (simp add: play2_rng)
  then show ?thesis
    by (simp add: loop_days_def Let_def) (simp add: rng_def)
qed

lemma random2_rng:
  assumes "rng t = rng t'"
  shows "fst (random2 a b t) = fst (random2 a b t')"
  using assms by (simp add: random2_def random1_def random_raw_def Let_def rng_def)

lemma loop_days_not_at_boundary:
  assumes "\<not> day_boundary s"
  shows "bounds (loop_days s) = bounds s"
proof (cases "started s")
  case True
  with assms have "\<not> DAY * 3 \<le> s32 (day_counter s + 1)"
    by (simp add: day_boundary_def)
  with True show ?thesis
    by (simp add: loop_days_def Let_def s32_DAY3 bounds_def)
next
  case False
  with assms have "\<not> DAY * 3 \<le> day_counter s"
    by (simp add: day_boundary_def)
  with False show ?thesis
    by (simp add: loop_days_def Let_def s32_DAY3 bounds_def)
qed

lemma loop_days_bounds_initial:
  "bounds (loop_days (s\<lparr>INITIAL_COUNTER_TRIGGER := x\<rparr>)) = bounds (loop_days s)"
proof (cases "day_boundary s")
  case True
  then have "day_boundary (s\<lparr>INITIAL_COUNTER_TRIGGER := x\<rparr>)"
    by (auto simp: day_boundary_def split: if_splits)
  from loop_days_at_boundary [OF this] loop_days_at_boundary [OF True] show ?thesis
    by (simp add: bounds_def)
next
  case False
  then have "\<not> day_boundary (s\<lparr>INITIAL_COUNTER_TRIGGER := x\<rparr>)"
    by (auto simp: day_boundary_def split: if_splits)
  from loop_days_not_at_boundary [OF this] loop_days_not_at_boundary [OF False] show ?thesis
    by (simp add: bounds_def)
qed

lemma loop_fired_trigger:
  assumes "counter_trigger s \<le> watchdog_counter s"
  shows "counter_trigger (loop s) =
     fst (random2 (MIN_COUNTER_TRIGGER (loop_days s)) (MAX_COUNTER_TRIGGER (loop_days s))
            (loop_days s\<lparr>watchdog_counter := 0\<rparr>))"
    and "MIN_COUNTER_TRIGGER (loop s) = MIN_COUNTER_TRIGGER (loop_days s)"
    and "MAX_COUNTER_TRIGGER (loop s) = MAX_COUNTER_TRIGGER (loop_days s)"
  using vars_eqD [OF loop_fired [OF assms]] by simp_all

text \<open>
  Claim C7.  \<^verbatim>\<open>setup\<close> adds the initial delay to the first threshold.  A threshold that
  \<^verbatim>\<open>loop\<close> redraws at a firing is the value drawn between the bounds, and it is the same
  whatever the initial delay is.
\<close>

theorem initial_delay_only_in_first_threshold:
  "(setup_sketch s0 = Some s \<longrightarrow>
      (\<exists>c. readConfiguration (pinMode activationPin False (pinMode piezoPin True s0)) = Some c \<and>
           counter_trigger s =
             s32 (fst (random2 (MIN_COUNTER_TRIGGER c) (MAX_COUNTER_TRIGGER c) (randomSeed (millis c) c))
                  + INITIAL_COUNTER_TRIGGER c))) \<and>
   (counter_trigger s \<le> watchdog_counter s \<longrightarrow>
      counter_trigger (loop s) =
        fst (random2 (MIN_COUNTER_TRIGGER (loop s)) (MAX_COUNTER_TRIGGER (loop s))
               (loop_days s\<lparr>watchdog_counter := 0\<rparr>)) \<and>
      (\<forall>x. counter_trigger (loop (s\<lparr>INITIAL_COUNTER_TRIGGER := x\<rparr>)) = counter_trigger (loop s)))"
proof (intro conjI impI allI)
  assume "setup_sketch s0 = Some s"
  from setup_sketch_Some [OF this]
  show "\<exists>c. readConfiguration (pinMode activationPin False (pinMode piezoPin True s0)) = Some c \<and>
           counter_trigger s =
             s32 (fst (random2 (MIN_COUNTER_TRIGGER c) (MAX_COUNTER_TRIGGER c) (randomSeed (millis c) c))
                  + INITIAL_COUNTER_TRIGGER c)"
    by blast
next
  assume f: "counter_trigger s \<le> watchdog_counter s"
  from loop_fired_trigger [OF f]
  show "counter_trigger (loop s) =
        fst (random2 (MIN_COUNTER_TRIGGER (loop s)) (MAX_COUNTER_TRIGGER (loop s))
               (loop_days s\<lparr>watchdog_counter := 0\<rparr>))"
    by simp
next
  fix x
  assume f: "counter_trigger s \<le> watchdog_counter s"
  let ?s' = "s\<lparr>INITIAL_COUNTER_TRIGGER := x\<rparr>"
  have f': "counter_trigger ?s' \<le> watchdog_counter ?s'" using f by simp
  have b: "MIN_COUNTER_TRIGGER (loop_days ?s') = MIN_COUNTER_TRIGGER (loop_days s)"
      "MAX_COUNTER_TRIGGER (loop_days ?s') = MAX_COUNTER_TRIGGER (loop_days s)"
    using loop_days_bounds_initial [where s = s and x = x] by (simp_all add: bounds_def)
  have "rng (loop_days ?s'\<lparr>watchdog_counter := 0\<rparr>) = rng (loop_days s\<lparr>watchdog_counter := 0\<rparr>)"
    using loop_days_rng [of ?s'] loop_days_rng [of s] by (simp add: rng_def)
  then have "fst (random2 (MIN_COUNTER_TRIGGER (loop_days s)) (MAX_COUNTER_TRIGGER (loop_days s))
            (loop_days ?s'\<lparr>watchdog_counter := 0\<rparr>))
     = fst (random2 (MIN_COUNTER_TRIGGER (loop_days s)) (MAX_COUNTER_TRIGGER (loop_days s))
            (loop_days s\<lparr>watchdog_counter := 0\<rparr>))"
    by (rule random2_rng)
  then show "counter_trigger (loop ?s') = counter_trigger (loop s)"
    using loop_fired_trigger(1) [OF f] loop_fired_trigger(1) [OF f'] b by simp
qed

text \<open>
  Claim C5.  After the configuration of a device that was just powered on, and after the
  whole of \<^verbatim>\<open>setup\<close>, the lower interval bound is at most the upper one and the device
  count is at least 1; a turn of \<^verbatim>\<open>loop\<close> (with or without a decay) and the watchdog
  interrupt preserve this.
\<close>

theorem interval_invariant:
  "(readConfiguration (power_on lv gen beyond) = Some s \<longrightarrow> config_inv s) \<and>
   (setup_sketch (power_on lv gen beyond) = Some s \<longrightarrow> config_inv s) \<and>
   (config_inv s \<longrightarrow> config_inv (loop s) \<and> config_inv (WDT_vect s))"
proof (intro conjI impI)
  assume "readConfiguration (power_on lv gen beyond) = Some s"
  then show "config_inv s"
    by (intro configured_inv [of "power_on lv gen beyond"]) (simp_all add: power_on_def)
next
  assume "setup_sketch (power_on lv gen beyond) = Some s"
  from setup_sketch_Some [OF this] obtain c where
    c: "readConfiguration (pinMode activationPin False (pinMode piezoPin True (power_on lv gen beyond))) = Some c"
    and b: "bounds s = bounds c"
    by blast
  from c have "config_inv c"
    by (intro configured_inv [of "pinMode activationPin False (pinMode piezoPin True (power_on lv gen beyond))"])
       (simp_all add: power_on_def pinMode_def)
  with b show "config_inv s"
    by (simp add: config_inv_def bounds_def)
next
  assume "config_inv s"
  then show "config_inv (loop s)" "config_inv (WDT_vect s)"
    using interval_invariant_step [of s] by simp_all
qed

section \<open>The configuration without activation\<close>

lemma quiet_configuration:
  assumes "clock s0 = 0" "activation_window_quiet (activation_level s0)"
  shows "\<exists>c. readConfiguration s0 = Some c \<and>
     MIN_COUNTER_TRIGGER c = 0 \<and> MAX_COUNTER_TRIGGER c = 0 \<and> INITIAL_COUNTER_TRIGGER c = 0 \<and>
     WATCHDOG_PARAM c = TEST_WATCHDOG_PARAM \<and> device_count c = device_count s0"
proof -
  from assms(2) have "\<forall>t\<in>{300..<5300}. \<not> activation_level s0 t"
    by (simp add: activation_window_quiet_def)
  from readConfiguration_not_activated [OF assms(1) this] obtain c where
    c: "readConfiguration s0 = Some c" and
    v: "vars c = vars (s0\<lparr>INITIAL_COUNTER_TRIGGER := 0, MIN_COUNTER_TRIGGER := 0,
                              MAX_COUNTER_TRIGGER := 0, WATCHDOG_PARAM := TEST_WATCHDOG_PARAM\<rparr>)"
    by blast
  from vars_eqD [OF v] c show ?thesis by simp
qed

lemma watchdog_prescaler_test:
  "watchdog_prescaler (WDTCR (setup_watchdog TEST_WATCHDOG_PARAM s)) = 7"
  by (simp add: setup_watchdog_def Let_def TEST_WATCHDOG_PARAM_def WDCE_def WDIE_def WDE_def WDRF_def
        watchdog_prescaler_def)

text \<open>
  Claim C2, as amended.  When the pin stays low during the five seconds of the activation
  window, the configuration ends with both interval bounds and the initial delay at 0 and
  with the watchdog parameter at the test value 7, a period of two seconds; \<^verbatim>\<open>setup\<close> then
  programs the prescaler 7 and the first threshold is 0.
\<close>

theorem super_annoying_configuration:
  assumes "activation_window_quiet lv"
  shows "\<exists>c s. readConfiguration (power_on lv gen beyond) = Some c \<and>
     MIN_COUNTER_TRIGGER c = 0 \<and> MAX_COUNTER_TRIGGER c = 0 \<and> INITIAL_COUNTER_TRIGGER c = 0 \<and>
     WATCHDOG_PARAM c = TEST_WATCHDOG_PARAM \<and> watchdog_period_ms (WATCHDOG_PARAM c) = 2000 \<and>
     setup_sketch (power_on lv gen beyond) = Some s \<and>
     watchdog_prescaler (WDTCR s) = 7 \<and> counter_trigger s = 0"
proof -
  let ?p = "power_on lv gen beyond"
  let ?q = "pinMode activationPin False (pinMode piezoPin True ?p)"
  have "\<exists>c. readConfiguration ?p = Some c \<and>
     MIN_COUNTER_TRIGGER c = 0 \<and> MAX_COUNTER_TRIGGER c = 0 \<and> INITIAL_COUNTER_TRIGGER c = 0 \<and>
     WATCHDOG_PARAM c = TEST_WATCHDOG_PARAM \<and> device_count c = device_count ?p"
    using assms by (intro quiet_configuration) (simp_all add: power_on_def)
  then obtain c where c: "readConfiguration ?p = Some c"
    "MIN_COUNTER_TRIGGER c = 0" "MAX_COUNTER_TRIGGER c = 0" "INITIAL_COUNTER_TRIGGER c = 0"
    "WATCHDOG_PARAM c = TEST_WATCHDOG_PARAM"
    by blast
  have "\<exists>c. readConfiguration ?q = Some c \<and>
     MIN_COUNTER_TRIGGER c = 0 \<and> MAX_COUNTER_TRIGGER c = 0 \<and> INITIAL_COUNTER_TRIGGER c = 0 \<and>
     WATCHDOG_PARAM c = TEST_WATCHDOG_PARAM \<and> device_count c = device_count ?q"
    using assms by (intro quiet_configuration) (simp_all add: power_on_def pinMode_def)
  then obtain c' where c': "readConfiguration ?q = Some c'"
    "MIN_COUNTER_TRIGGER c' = 0" "MAX_COUNTER_TRIGGER c' = 0" "INITIAL_COUNTER_TRIGGER c' = 0"
    "WATCHDOG_PARAM c' = TEST_WATCHDOG_PARAM"
    by blast
  from setup_sketch_total [OF c'(1)] obtain s where s: "setup_sketch ?p = Some s"
    by blast
  from setup_sketch_Some [OF s] c'(1) have
    "WDTCR s = WDTCR (setup_watchdog (WATCHDOG_PARAM c') c')"
    "counter_trigger s =
       s32 (fst (random2 (MIN_COUNTER_TRIGGER c') (MAX_COUNTER_TRIGGER c') (randomSeed (millis c') c'))
            + INITIAL_COUNTER_TRIGGER c')"
    by auto
  then have "watchdog_prescaler (WDTCR s) = 7" "counter_trigger s = 0"
    using c' by (simp_all add: watchdog_prescaler_test random2_def s32_def)
  moreover have "watchdog_period_ms (WATCHDOG_PARAM c) = 2000"
    using c(5) by (simp add: watchdog_period_ms_def watchdog_periods_def TEST_WATCHDOG_PARAM_def)
  ultimately show ?thesis
    using c s by blast
qed

section \<open>The tap counter and the configuration with activation\<close>

text \<open>
  Claim C6, as amended.  For taps that arrive within the timing windows the tap counter
  returns their number as a byte, that is modulo 256: exactly n for up to 255 taps, and 0
  when the first window passes without a tap.
\<close>

theorem tap_count_is_byte:
  assumes "taps_ok (activation_level s) T (clock s) ts"
  shows "map_option (unat \<circ> fst) (readActivationPinByte period (int T) s) = Some (length ts mod 256)"
proof -
  from readActivationPinByte_elapsed [OF assms, of period] obtain s' where
    "readActivationPinByte period (int T) s = Some (of_nat (length ts), s')"
    by blast
  then show ?thesis
    by (simp add: unat_of_nat)
qed

lemma scenario_days_ok: "taps_ok scenario_level 1000 1300 scenario_days"
  by (simp add: scenario_days_def ready_time_def release_time_def scenario_level_def)

lemma scenario_others_ok: "taps_ok scenario_level 1000 4700 scenario_others"
  by (simp add: scenario_others_def ready_time_def release_time_def scenario_level_def)

lemma scenario_run: "activated_run scenario_level 1000 scenario_days scenario_others"
proof -
  have o: "others_start 1000 scenario_days = 4700"
    by (simp add: others_start_def scenario_days_def ready_time_def release_time_def)
  have t: "test_start 1000 scenario_days scenario_others = 7900"
    by (simp add: test_start_def o scenario_others_def ready_time_def release_time_def)
  have q: "taps_ok scenario_level 1000 7900 []"
    by (simp add: scenario_level_def)
  have a: "\<forall>t\<in>{300..<1000}. \<not> scenario_level t" "scenario_level 1000"
    by (simp_all add: scenario_level_def)
  show ?thesis
    using a q scenario_days_ok scenario_others_ok
    by (simp add: activated_run_def o t)
qed

theorem tap_count_is_byte_witness:
  "taps_ok (activation_level ((power_on scenario_level zero_generator 0)\<lparr>clock := 1300\<rparr>)) 1000
     (clock ((power_on scenario_level zero_generator 0)\<lparr>clock := 1300\<rparr>)) scenario_days \<and>
   map_option (unat \<circ> fst)
     (readActivationPinByte 400 1000 ((power_on scenario_level zero_generator 0)\<lparr>clock := 1300\<rparr>))
     = Some 3"
proof -
  let ?s = "(power_on scenario_level zero_generator 0)\<lparr>clock := 1300\<rparr>"
  have h: "taps_ok (activation_level ?s) 1000 (clock ?s) scenario_days"
    using scenario_days_ok by (simp add: power_on_def)
  from tap_count_is_byte [OF h, of 400] h show ?thesis
    by (simp add: scenario_days_def)
qed

lemma train256_ok: "taps_ok (train_level 100 256) 1000 0 (train_taps 100 0 256)"
  by (rule train_ok) simp_all

text \<open>
  Claim C6 as stated, for every number of taps: 256 taps, 400 ms apart, are counted as 0.
\<close>

theorem tap_count_256_counterexample:
  "taps_ok (train_level 100 256) 1000 0 (train_taps 100 0 256) \<and>
   length (train_taps 100 0 256) = 256 \<and>
   map_option (unat \<circ> fst)
     (readActivationPinByte 400 1000 (power_on (train_level 100 256) zero_generator 0)) = Some 0"
proof -
  let ?s = "power_on (train_level 100 256) zero_generator 0"
  have "taps_ok (activation_level ?s) 1000 (clock ?s) (train_taps 100 0 256)"
    using train256_ok by (simp add: power_on_def)
  from readActivationPinByte_elapsed [OF this, of 400] obtain s' where
    "readActivationPinByte 400 1000 ?s = Some (of_nat (length (train_taps 100 0 256)), s')"
    by auto
  then have "map_option (unat \<circ> fst) (readActivationPinByte 400 1000 ?s) = Some 0"
    by (simp add: train_length)
  with train256_ok show ?thesis
    by (simp add: train_length)
qed

text \<open>
  Claim C1, as amended.  In an activated run with d taps in the days stage and k taps in
  the stage of the other devices, d and k at most 255, and no tap for the test mode, the
  interval bounds are 37 and 60 times k + 1, the initial delay is one day plus d days and
  the device count is k + 1.
\<close>

theorem configuration_scales_with_devices:
  assumes "activated_run lv a ds ks" and "length ds \<le> 255" and "length ks \<le> 255"
  shows "\<exists>s. readConfiguration (power_on lv gen beyond) = Some s \<and>
     MIN_COUNTER_TRIGGER s = MIN_COUNTER_TRIGGER (power_on lv gen beyond) * (int (length ks) + 1) \<and>
     MAX_COUNTER_TRIGGER s = MAX_COUNTER_TRIGGER (power_on lv gen beyond) * (int (length ks) + 1) \<and>
     INITIAL_COUNTER_TRIGGER s
       = INITIAL_COUNTER_TRIGGER (power_on lv gen beyond) + int (length ds) * DAY \<and>
     device_count s = int (length ks) + 1"
proof -
  let ?p = "power_on lv gen beyond"
  have "clock ?p = 0" "activated_run (activation_level ?p) a ds ks"
    using assms(1) by (simp_all add: power_on_def)
  from readConfiguration_activated [OF this] obtain s where
    s: "readConfiguration ?p = Some s" and
    v: "vars s = vars (?p\<lparr>device_count := int (length ks mod 256) + 1,
             MIN_COUNTER_TRIGGER := s16 (MIN_COUNTER_TRIGGER ?p * (int (length ks mod 256) + 1)),
             MAX_COUNTER_TRIGGER := s16 (MAX_COUNTER_TRIGGER ?p * (int (length ks mod 256) + 1)),
             INITIAL_COUNTER_TRIGGER :=
               s32 (INITIAL_COUNTER_TRIGGER ?p + s32 (DAY * int (length ds mod 256)))\<rparr>)"
    by blast
  have k: "length ks mod 256 = length ks" and d: "length ds mod 256 = length ds"
    using assms(2,3) by simp_all
  have m: "c_int (37 * (int (length ks) + 1))" "c_int (60 * (int (length ks) + 1))"
    using assms(3) by (simp_all add: c_int_def)
  have i: "s32 (DAY * int (length ds)) = DAY * int (length ds)"
    "s32 (DAY + DAY * int (length ds)) = DAY + DAY * int (length ds)"
    using assms(2) by (simp_all add: s32_def DAY_def)
  from vars_eqD [OF v] s m show ?thesis
    by (simp add: k d power_on_def s16_id i mult.commute)
qed

theorem configuration_scales_with_devices_witness:
  "activated_run scenario_level 1000 scenario_days scenario_others \<and>
   length scenario_days \<le> 255 \<and> length scenario_others \<le> 255 \<and>
   (\<exists>s. readConfiguration (power_on scenario_level zero_generator 0) = Some s \<and>
     MIN_COUNTER_TRIGGER s = 111 \<and> MAX_COUNTER_TRIGGER s = 180 \<and>
     INITIAL_COUNTER_TRIGGER s = 43200 \<and> device_count s = 3)"
proof -
  have h: "length scenario_days \<le> 255" "length scenario_others \<le> 255"
    by (simp_all add: scenario_days_def scenario_others_def)
  from configuration_scales_with_devices [OF scenario_run h, of zero_generator 0]
  have "\<exists>s. readConfiguration (power_on scenario_level zero_generator 0) = Some s \<and>
     MIN_COUNTER_TRIGGER s = 111 \<and> MAX_COUNTER_TRIGGER s = 180 \<and>
     INITIAL_COUNTER_TRIGGER s = 43200 \<and> device_count s = 3"
    by (simp add: scenario_days_def scenario_others_def power_on_def DAY_def)
  with scenario_run h show ?thesis by blast
qed

lemma train257_run: "activated_run (train_level 1000 257) 1000 (train_taps 1000 1 257) []"
proof -
  have d: "taps_ok (train_level 1000 257) 1000 1300 (train_taps 1000 1 257)"
    by (rule train_ok) simp_all
  have "stage_end 1000 1300 (train_taps 1000 1 257) = 1000 + 400 * (257 - 1) + 300 + 1000"
    by (rule train_stage_end) simp
  then have e: "stage_end 1000 1300 (train_taps 1000 1 257) = 104700"
    by simp
  have o: "others_start 1000 (train_taps 1000 1 257) = 105100"
    using e by (simp add: others_start_def train_length)
  have t: "test_start 1000 (train_taps 1000 1 257) [] = 106500"
    using o by (simp add: test_start_def)
  have q: "taps_ok (train_level 1000 257) 1000 r []" if "103800 \<le> r" "r \<le> 106500" for r
    using that by (simp add: train_after)
  have a: "\<forall>t\<in>{300..<1000}. \<not> train_level 1000 257 t"
    by (simp add: train_before)
  have b: "train_level 1000 257 1000"
    by (rule train_high [of 0]) simp_all
  show ?thesis
    using a b d q [of 105100] q [of 106500] o t
    by (simp add: activated_run_def)
qed

text \<open>
  Claim C1 as stated, for every number of taps: after 256 taps in the days stage the
  initial delay is one day, not 257 days.
\<close>

theorem configuration_256_days_counterexample:
  "activated_run (train_level 1000 257) 1000 (train_taps 1000 1 257) [] \<and>
   length (train_taps 1000 1 257) = 256 \<and>
   map_option INITIAL_COUNTER_TRIGGER (readConfiguration (power_on (train_level 1000 257) zero_generator 0))
     = Some DAY \<and>
   DAY \<noteq> INITIAL_COUNTER_TRIGGER (power_on (train_level 1000 257) zero_generator 0) + 256 * DAY"
proof -
  let ?p = "power_on (train_level 1000 257) zero_generator 0"
  have "clock ?p = 0" "activated_run (activation_level ?p) 1000 (train_taps 1000 1 257) []"
    using train257_run by (simp_all add: power_on_def)
  from readConfiguration_activated [OF this] obtain s where
    s: "readConfiguration ?p = Some s" and
    v: "vars s = vars (?p\<lparr>device_count := int (length ([] :: (nat \<times> nat) list) mod 256) + 1,
             MIN_COUNTER_TRIGGER := s16 (MIN_COUNTER_TRIGGER ?p * (int (length ([] :: (nat \<times> nat) list) mod 256) + 1)),
             MAX_COUNTER_TRIGGER := s16 (MAX_COUNTER_TRIGGER ?p * (int (length ([] :: (nat \<times> nat) list) mod 256) + 1)),
             INITIAL_COUNTER_TRIGGER :=
               s32 (INITIAL_COUNTER_TRIGGER ?p + s32 (DAY * int (length (train_taps 1000 1 257) mod 256)))\<rparr>)"
    by blast
  from vars_eqD(4) [OF v] have "INITIAL_COUNTER_TRIGGER s = DAY"
    by (simp add: train_length power_on_def s32_def DAY_def)
  with s train257_run show ?thesis
    by (simp add: train_length power_on_def DAY_def)
qed

text \<open>
  Claim C2 as stated: with no tap at all the watchdog parameter is 7, a period of two
  seconds, while the parameter 0 gives the fastest period, 16 ms.
\<close>

theorem super_annoying_not_fastest_counterexample:
  "map_option WATCHDOG_PARAM (readConfiguration (power_on never_tapped zero_generator 0)) = Some 7 \<and>
   watchdog_period_ms 0 < watchdog_period_ms 7"
proof -
  let ?p = "power_on never_tapped zero_generator 0"
  have "\<exists>c. readConfiguration ?p = Some c \<and>
     MIN_COUNTER_TRIGGER c = 0 \<and> MAX_COUNTER_TRIGGER c = 0 \<and> INITIAL_COUNTER_TRIGGER c = 0 \<and>
     WATCHDOG_PARAM c = TEST_WATCHDOG_PARAM \<and> device_count c = device_count ?p"
    by (intro quiet_configuration)
       (simp_all add: power_on_def never_tapped_def activation_window_quiet_def)
  then show ?thesis
    by (auto simp: TEST_WATCHDOG_PARAM_def watchdog_period_ms_def watchdog_periods_def)
qed

lemma never_tapped_quiet: "activation_window_quiet never_tapped"
  by (simp add: activation_window_quiet_def never_tapped_def)

lemma never_tapped_setup:
  "\<exists>c c' s. readConfiguration (power_on never_tapped zero_generator 0) = Some c \<and>
     readConfiguration (pinMode activationPin False (pinMode piezoPin True
        (power_on never_tapped zero_generator 0))) = Some c' \<and>
     setup_sketch (power_on never_tapped zero_generator 0) = Some s \<and>
     counter_trigger s = 0 \<and> watchdog_counter s = 0"
proof -
  let ?p = "power_on never_tapped zero_generator 0"
  let ?q = "pinMode activationPin False (pinMode piezoPin True ?p)"
  have "\<exists>c. readConfiguration ?p = Some c \<and>
     MIN_COUNTER_TRIGGER c = 0 \<and> MAX_COUNTER_TRIGGER c = 0 \<and> INITIAL_COUNTER_TRIGGER c = 0 \<and>
     WATCHDOG_PARAM c = TEST_WATCHDOG_PARAM \<and> device_count c = device_count ?p"
    using never_tapped_quiet by (intro quiet_configuration) (simp_all add: power_on_def)
  then obtain c where c: "readConfiguration ?p = Some c" by blast
  have "\<exists>c'. readConfiguration ?q = Some c' \<and>
        vars c' = vars (?q\<lparr>INITIAL_COUNTER_TRIGGER := 0, MIN_COUNTER_TRIGGER := 0,
            MAX_COUNTER_TRIGGER := 0, WATCHDOG_PARAM := TEST_WATCHDOG_PARAM\<rparr>)"
    by (intro readConfiguration_not_activated)
       (simp_all add: power_on_def pinMode_def never_tapped_def)
  then obtain c' where c': "readConfiguration ?q = Some c'"
    and v: "vars c' = vars (?q\<lparr>INITIAL_COUNTER_TRIGGER := 0, MIN_COUNTER_TRIGGER := 0,
            MAX_COUNTER_TRIGGER := 0, WATCHDOG_PARAM := TEST_WATCHDOG_PARAM\<rparr>)"
    by blast
  have f: "MIN_COUNTER_TRIGGER c' = 0" "MAX_COUNTER_TRIGGER c' = 0" "INITIAL_COUNTER_TRIGGER c' = 0"
    "watchdog_counter c' = 0"
    using vars_eqD [OF v] by (simp_all add: power_on_def pinMode_def)
  let ?t = "randomSeed (millis c') c'"
  let ?n = "newTriggerCounter ?t"
  let ?u = "?n\<lparr>counter_trigger := s32 (counter_trigger ?n + INITIAL_COUNTER_TRIGGER ?n)\<rparr>"
  have s: "setup_sketch ?p = Some (setup_watchdog (WATCHDOG_PARAM ?u) ?u)"
    using c' by (simp add: setup_sketch_def Let_def)
  have n: "watchdog_counter ?n = watchdog_counter c'"
    using vars_eqD [OF newTriggerCounter_vars, of ?t] vars_eqD [OF randomSeed_vars, of "millis c'" c']
    by simp
  have w: "watchdog_counter (setup_watchdog (WATCHDOG_PARAM ?u) ?u) = 0"
    using n f vars_eqD [OF setup_watchdog_vars, of "WATCHDOG_PARAM ?u" ?u] by simp
  from setup_sketch_Some [OF s] c' f
  have "counter_trigger (setup_watchdog (WATCHDOG_PARAM ?u) ?u) = 0"
    by (auto simp: random2_def s32_def)
  with c c' s w show ?thesis by blast
qed

theorem super_annoying_configuration_witness:
  "activation_window_quiet never_tapped \<and>
   (\<exists>c s. readConfiguration (power_on never_tapped zero_generator 0) = Some c \<and>
     MIN_COUNTER_TRIGGER c = 0 \<and> MAX_COUNTER_TRIGGER c = 0 \<and> INITIAL_COUNTER_TRIGGER c = 0 \<and>
     WATCHDOG_PARAM c = 7 \<and> watchdog_period_ms (WATCHDOG_PARAM c) = 2000 \<and>
     setup_sketch (power_on never_tapped zero_generator 0) = Some s \<and>
     watchdog_prescaler (WDTCR s) = 7 \<and> counter_trigger s = 0)"
  using super_annoying_configuration [OF never_tapped_quiet, of zero_generator 0] never_tapped_quiet
  by (simp add: TEST_WATCHDOG_PARAM_def)

theorem interval_invariant_witness:
  "\<exists>c s. readConfiguration (power_on never_tapped zero_generator 0) = Some c \<and> config_inv c \<and>
     setup_sketch (power_on never_tapped zero_generator 0) = Some s \<and> config_inv s \<and>
     config_inv (loop s) \<and> config_inv (WDT_vect s)"
proof -
  from never_tapped_setup obtain c s where
    c: "readConfiguration (power_on never_tapped zero_generator 0) = Some c" and
    s: "setup_sketch (power_on never_tapped zero_generator 0) = Some s"
    by blast
  from interval_invariant [of never_tapped zero_generator 0 c] c have ic: "config_inv c"
    by simp
  from interval_invariant [of never_tapped zero_generator 0 s] s
  have "config_inv s \<and> config_inv (loop s) \<and> config_inv (WDT_vect s)"
    by simp
  with c s ic show ?thesis by blast
qed

theorem initial_delay_only_in_first_threshold_witness:
  "\<exists>c s. setup_sketch (power_on never_tapped zero_generator 0) = Some s \<and>
     readConfiguration (pinMode activationPin False (pinMode piezoPin True
        (power_on never_tapped zero_generator 0))) = Some c \<and>
     counter_trigger s =
       s32 (fst (random2 (MIN_COUNTER_TRIGGER c) (MAX_COUNTER_TRIGGER c) (randomSeed (millis c) c))
            + INITIAL_COUNTER_TRIGGER c) \<and>
     counter_trigger s \<le> watchdog_counter s \<and>
     counter_trigger (loop s) =
        fst (random2 (MIN_COUNTER_TRIGGER (loop s)) (MAX_COUNTER_TRIGGER (loop s))
               (loop_days s\<lparr>watchdog_counter := 0\<rparr>)) \<and>
     counter_trigger (loop (s\<lparr>INITIAL_COUNTER_TRIGGER := 5\<rparr>)) = counter_trigger (loop s)"
proof -
  let ?p = "power_on never_tapped zero_generator 0"
  from never_tapped_setup obtain s where
    s: "setup_sketch ?p = Some s" and z: "counter_trigger s = 0" "watchdog_counter s = 0"
    by blast
  have le: "counter_trigger s \<le> watchdog_counter s"
    using z by simp
  from initial_delay_only_in_first_threshold [of ?p s] s le show ?thesis
    by auto
qed

section \<open>Instances of the scheduler theorems\<close>

theorem trigger_redrawn_within_bounds_witness:
  "config_inv (power_on never_tapped zero_generator 0) \<and>
   counter_trigger (power_on never_tapped zero_generator 0)
     \<le> watchdog_counter (power_on never_tapped zero_generator 0) \<and>
   watchdog_counter (loop (power_on never_tapped zero_generator 0)) = 0 \<and>
   MIN_COUNTER_TRIGGER (loop (power_on never_tapped zero_generator 0))
     \<le> counter_trigger (loop (power_on never_tapped zero_generator 0)) \<and>
   counter_trigger (loop (power_on never_tapped zero_generator 0))
     \<le> MAX_COUNTER_TRIGGER (loop (power_on never_tapped zero_generator 0))"
proof -
  let ?s = "power_on never_tapped zero_generator 0"
  have h1: "config_inv ?s"
    by (simp add: config_inv_def power_on_def c_int_def)
  have h2: "counter_trigger ?s \<le> watchdog_counter ?s"
    by (simp add: power_on_def)
  from trigger_redrawn_within_bounds [OF h1 h2] h1 h2 show ?thesis
    by simp
qed

theorem day_counter_reset_at_boundary_witness:
  "day_boundary (before_boundary 37 60 1) \<and>
   day_counter (loop (before_boundary 37 60 1)) = 0 \<and>
   day_counter (loop (before_boundary 37 60 1)) \<le> DAY * 3"
proof -
  have h: "day_boundary (before_boundary 37 60 1)"
    by (simp add: day_boundary_def before_boundary_def DAY_def s32_def)
  from day_counter_reset_at_boundary [of "before_boundary 37 60 1"] h show ?thesis
    by simp
qed

theorem decay_example_witness:
  "day_boundary (before_boundary 100 200 4) \<and>
   bounds (before_boundary 100 200 4) = (100, 200, 4) \<and>
   bounds (loop (before_boundary 100 200 4)) = (75, 150, 3) \<and>
   bounds (loop (before_boundary 75 150 3)) = (50, 100, 2) \<and>
   bounds (loop (before_boundary 50 100 2)) = (25, 50, 1) \<and>
   bounds (loop (before_boundary 25 50 1)) = (25, 50, 1)"
proof -
  have h: "day_boundary (before_boundary lo hi n)" for lo hi n
    by (simp add: day_boundary_def before_boundary_def DAY_def s32_def)
  have b: "bounds (before_boundary lo hi n) = (lo, hi, n)" for lo hi n
    by (simp add: bounds_def before_boundary_def)
  from decay_example [OF h [of 100 200 4]] decay_example [OF h [of 75 150 3]]
    decay_example [OF h [of 50 100 2]] decay_example [OF h [of 25 50 1]] h [of 100 200 4]
  show ?thesis
    by (simp add: b) (simp add: before_boundary_def)
qed

end
